theory Spec2Isabelle
  imports Main "HOL-Library.Word"
begin

section \<open>Errors, tokens and wire messages\<close>

text \<open>
  Go \<^verbatim>\<open>error\<close> values. \<^verbatim>\<open>nil\<close> is \<open>None\<close> of \<open>error option\<close>. The three
  sentinel errors are the package-level variables of \<^verbatim>\<open>pkg/hub\<close>; \<open>Wrapf e fmt r\<close> is
  \<^verbatim>\<open>errors.Wrapf(e, fmt, r)\<close>; \<open>EOF\<close> is \<^verbatim>\<open>io.EOF\<close>; \<open>ErrOther\<close> stands for every
  error produced outside this package (network, crypto, control plane).
\<close>

datatype token_role = CONTROL | AGENT | RoleOther nat

datatype error =
    ErrProtocolError
  | ErrWrongService
  | ErrBadControlToken
  | Wrapf error string token_role
  | EOF
  | ErrOther string

type_synonym ulid = string

text \<open>
  Modelled from the spec: \<^verbatim>\<open>token.ValidToken\<close> of \<^verbatim>\<open>pkg/token\<close> is not among the source
  files. The spec (sections 3 and 4.2) gives it a role, an account namespace and id and a
  set of capability strings, with \<^verbatim>\<open>HasCapability(name)\<close> testing membership.
\<close>

record token_body =
  Role :: token_role
  Capabilities :: "string list"
  TokNamespace :: string
  TokAccountId :: ulid

record valid_token =
  Body :: token_body

definition HasCapability :: "valid_token \<Rightarrow> string \<Rightarrow> bool" where
  "HasCapability vt name = (name \<in> set (Capabilities (Body vt)))"

definition AccountNamespace :: "valid_token \<Rightarrow> string" where
  "AccountNamespace vt = TokNamespace (Body vt)"

definition AccountId :: "valid_token \<Rightarrow> ulid" where
  "AccountId vt = TokAccountId (Body vt)"

text \<open>The protobuf messages, with the fields the hub reads or writes.\<close>

record service_info =
  ServiceId :: ulid
  SiType :: string
  SiLabels :: "string list"
  SiMetadata :: "(string \<times> string) list"

record preamble =
  Token :: string
  SessionId :: string
  Services :: "service_info list"

record timestamp =
  Sec :: "64 word"
  Nsec :: "64 word"

record confirmation =
  Time :: "timestamp option"
  Status :: string

record account =
  Namespace :: string
  AcctId :: ulid

record service_request =
  Account :: account
  Hub :: ulid
  Id :: ulid
  SrType :: string
  SrLabels :: "string list"
  SrMetadata :: "(string \<times> string) list"

type_synonym account_services = "account \<times> service_request list"
type_synonym label_links = "(string list \<times> account \<times> string list) list"

datatype noop = Noop

section \<open>The control client\<close>

text \<open>
  \<^verbatim>\<open>control.Client\<close> is used through its methods only. Its calls reach the control plane
  or mutate the client's own tables, so each takes the world \<open>'w\<close> (everything outside the
  function under study) and returns the new one. \<open>cc_CheckToken s\<close> is
  \<^verbatim>\<open>token.CheckTokenED25519(s, client.TokenPub())\<close>.
\<close>

record 'w control_client =
  cc_Id :: ulid
  cc_CheckToken :: "string \<Rightarrow> error + valid_token"
  cc_AddService :: "service_request \<Rightarrow> 'w \<Rightarrow> error option \<times> 'w"
  cc_RemoveService :: "service_request \<Rightarrow> 'w \<Rightarrow> error option \<times> 'w"
  cc_AddRecentAccountServices :: "account_services \<Rightarrow> 'w \<Rightarrow> error option \<times> 'w"
  cc_AddRecentLabelLinks :: "label_links \<Rightarrow> 'w \<Rightarrow> error option \<times> 'w"

section \<open>InboundServer: the control-plane calls a hub receives\<close>

text \<open>
  The incoming context is \<open>None\<close> when \<^verbatim>\<open>metadata.FromIncomingContext\<close> finds no metadata
  and \<open>Some md\<close> otherwise. Indexing a Go map at a missing key gives the nil slice, of
  length 0.
\<close>

type_synonym metadata = "string \<rightharpoonup> string list"

definition md_get :: "metadata \<Rightarrow> string \<Rightarrow> string list" where
  "md_get md k = (case md k of None \<Rightarrow> [] | Some vs \<Rightarrow> vs)"

definition checkValidToken :: "'w control_client \<Rightarrow> metadata option \<Rightarrow> error option" where
  "checkValidToken c ctx =
     (case ctx of
        None \<Rightarrow> Some ErrBadControlToken
      | Some md \<Rightarrow>
          (let auth = md_get md ''authorization'' in
           if length auth < 1 then Some ErrBadControlToken
           else (case cc_CheckToken c (auth ! 0) of
                   Inl err \<Rightarrow> Some err
                 | Inr tok \<Rightarrow>
                     if Role (Body tok) \<noteq> CONTROL
                     then Some (Wrapf ErrBadControlToken ''role was: %s'' (Role (Body tok)))
                     else None)))"

text \<open>The result pair is Go's \<^verbatim>\<open>(*pb.Noop, error)\<close>; a nil pointer is \<open>None\<close>.\<close>

definition AddServices ::
  "'w control_client \<Rightarrow> metadata option \<Rightarrow> account_services \<Rightarrow> 'w
     \<Rightarrow> (noop option \<times> error option) \<times> 'w" where
  "AddServices c ctx services w =
     (case checkValidToken c ctx of
        Some err \<Rightarrow> ((None, Some err), w)
      | None \<Rightarrow>
          (let (err, w') = cc_AddRecentAccountServices c services w
           in ((Some Noop, err), w')))"

definition AddLabeLink ::
  "'w control_client \<Rightarrow> metadata option \<Rightarrow> label_links \<Rightarrow> 'w
     \<Rightarrow> (noop option \<times> error option) \<times> 'w" where
  "AddLabeLink c ctx labels w =
     (case checkValidToken c ctx of
        Some err \<Rightarrow> ((None, Some err), w)
      | None \<Rightarrow>
          (let (err, w') = cc_AddRecentLabelLinks c labels w
           in ((Some Noop, None), w')))"

section \<open>The hub: handling one inbound connection\<close>

text \<open>
  A \<^verbatim>\<open>*yamux.Session\<close> and a yamux stream are known by their identity. Of the \<^verbatim>\<open>Hub\<close>
  struct the model keeps \<^verbatim>\<open>id\<close>, \<^verbatim>\<open>cc\<close> and \<^verbatim>\<open>active\<close>; the logger, the yamux
  configuration, the mutex and the wait group carry no data the handshake reads.
\<close>

type_synonym session = nat
type_synonym stream_id = nat

record 'w hub =
  hub_id :: ulid
  hub_cc :: "'w control_client"
  active :: "string \<rightharpoonup> session"

definition NewHub :: "'w control_client \<Rightarrow> 'w hub" where
  "NewHub client = \<lparr>hub_id = cc_Id client, hub_cc = client, active = Map.empty\<rparr>"

definition ValidateToken :: "'w hub \<Rightarrow> string \<Rightarrow> error + valid_token" where
  "ValidateToken h stoken = cc_CheckToken (hub_cc h) stoken"

text \<open>
  What the connection and the libraries around it answer during one run of
  \<^verbatim>\<open>handleConn\<close>: the results of constructing the framing reader and writer, of reading
  the first frame (its tag and the decoded Preamble), of each frame write, of
  \<^verbatim>\<open>yamux.Server\<close>, and the successive results of \<^verbatim>\<open>sess.AcceptStream()\<close>. An accepted
  stream comes with the results of constructing its own framing reader and writer.
  \<open>SpecString\<close> is \<^verbatim>\<open>(*pb.ULID).SpecString\<close>, which is not among the source files and is
  left arbitrary. \<open>NowUnix\<close> and \<open>NowNanosecond\<close> are the two readings of \<^verbatim>\<open>time.Now()\<close>.
\<close>

datatype accept_result =
    AcceptErr error
  | AcceptOk stream_id "error option" "error option"

record conn_env =
  SpecString :: "ulid \<Rightarrow> string"
  NewFramingReader :: "error option"
  ReadMarshal :: "error + nat \<times> preamble"
  NowUnix :: int
  NowNanosecond :: int
  NewFramingWriter :: "error option"
  WriteMarshal :: "nat \<Rightarrow> confirmation \<Rightarrow> error option"
  yamux_Server :: "error + session"
  AcceptStream :: "accept_result list"

text \<open>
  The trace records, in order, every action of \<^verbatim>\<open>handleConn\<close> that something outside
  the goroutine can observe: frames written to the peer, calls to the control plane (with
  their results), writes to the shared \<^verbatim>\<open>active\<close> map, the spawned stream handlers, and
  the release of the connection's resources. Log lines are not recorded.
\<close>

datatype event =
    EvConnClose
  | EvFrRecycle
  | EvFwRecycle
  | EvWriteMarshal nat confirmation "error option"
  | EvAddService service_request "error option"
  | EvRemoveService service_request "error option"
  | EvActiveSet string session
  | EvActiveDelete string
  | EvSessClose session
  | EvGoHandleAgentStream stream_id
  | EvStreamFrRecycle stream_id
  | EvStreamFwRecycle stream_id

text \<open>
  Go's \<^verbatim>\<open>defer\<close>: each statement pushes a call on the function's stack of deferred calls,
  and the stack is run, last pushed first, when the function returns.
\<close>

datatype deferred =
    DConnClose
  | DFrRecycle
  | DRemoveServices valid_token
  | DSessClose session
  | DActiveDelete
  | DStreamFrRecycle stream_id
  | DStreamFwRecycle stream_id

definition service_request_of :: "'w hub \<Rightarrow> valid_token \<Rightarrow> service_info \<Rightarrow> service_request" where
  "service_request_of h vt serv =
     \<lparr>Account = \<lparr>Namespace = AccountNamespace vt, AcctId = AccountId vt\<rparr>,
      Hub = hub_id h,
      Id = ServiceId serv,
      SrType = SiType serv,
      SrLabels = SiLabels serv,
      SrMetadata = SiMetadata serv\<rparr>"

text \<open>The registration loop: it returns at the first error.\<close>

fun add_services ::
  "'w hub \<Rightarrow> valid_token \<Rightarrow> service_info list \<Rightarrow> event list \<Rightarrow> 'w
     \<Rightarrow> error option \<times> event list \<times> 'w" where
  "add_services h vt [] tr w = (None, tr, w)"
| "add_services h vt (serv # rest) tr w =
     (let req = service_request_of h vt serv;
          (err, w') = cc_AddService (hub_cc h) req w;
          tr' = tr @ [EvAddService req err]
      in case err of
           Some e \<Rightarrow> (Some e, tr', w')
         | None \<Rightarrow> add_services h vt rest tr' w')"

text \<open>The deferred deregistration loop: an error is logged and the loop goes on.\<close>

fun remove_services ::
  "'w hub \<Rightarrow> valid_token \<Rightarrow> service_info list \<Rightarrow> event list \<Rightarrow> 'w \<Rightarrow> event list \<times> 'w" where
  "remove_services h vt [] tr w = (tr, w)"
| "remove_services h vt (serv # rest) tr w =
     (let req = service_request_of h vt serv;
          (err, w') = cc_RemoveService (hub_cc h) req w
      in remove_services h vt rest (tr @ [EvRemoveService req err]) w')"

fun active_insert ::
  "conn_env \<Rightarrow> session \<Rightarrow> service_info list \<Rightarrow> (string \<rightharpoonup> session) \<Rightarrow> (string \<rightharpoonup> session)" where
  "active_insert env sess [] a = a"
| "active_insert env sess (serv # rest) a =
     active_insert env sess rest (a(SpecString env (ServiceId serv) \<mapsto> sess))"

fun active_delete ::
  "conn_env \<Rightarrow> service_info list \<Rightarrow> (string \<rightharpoonup> session) \<Rightarrow> (string \<rightharpoonup> session)" where
  "active_delete env [] a = a"
| "active_delete env (serv # rest) a =
     active_delete env rest (a(SpecString env (ServiceId serv) := None))"

definition service_keys :: "conn_env \<Rightarrow> preamble \<Rightarrow> string list" where
  "service_keys env p = map (\<lambda>serv. SpecString env (ServiceId serv)) (Services p)"

text \<open>
  A run of \<^verbatim>\<open>handleConn\<close> up to the accept loop either returns (with the stack of
  deferred calls still to run) or reaches the accept loop with the session in the
  \<^verbatim>\<open>active\<close> map. Both carry the Preamble as decoded, the trace so far, the hub and the
  world.
\<close>

datatype 'w hs_result =
    Return preamble "deferred list" "event list" "'w hub" 'w
  | ActiveAt preamble valid_token session "deferred list" "event list" "'w hub" 'w

definition zero_preamble :: preamble where
  "zero_preamble = \<lparr>Token = [], SessionId = [], Services = []\<rparr>"

definition new_confirmation :: "conn_env \<Rightarrow> confirmation" where
  "new_confirmation env =
     \<lparr>Time = Some \<lparr>Sec = word_of_int (NowUnix env), Nsec = word_of_int (NowNanosecond env)\<rparr>,
      Status = ''connected''\<rparr>"

definition handshake :: "conn_env \<Rightarrow> 'w hub \<Rightarrow> 'w \<Rightarrow> 'w hs_result" where
  "handshake env h w =
     (let ds0 = [DConnClose] in
      case NewFramingReader env of
        Some err \<Rightarrow> Return zero_preamble ds0 [] h w
      | None \<Rightarrow>
     (let ds1 = DFrRecycle # ds0 in
      case ReadMarshal env of
        Inl err \<Rightarrow> Return zero_preamble ds1 [] h w
      | Inr (tag, p) \<Rightarrow>
      if tag \<noteq> 1 then Return p ds1 [] h w
      else
     (let wc = new_confirmation env in
      case NewFramingWriter env of
        Some err \<Rightarrow> Return p ds1 [] h w
      | None \<Rightarrow>
     (let tr1 = [EvFwRecycle] in
      case ValidateToken h (Token p) of
        Inl err \<Rightarrow>
          (let wc' = wc\<lparr>Status := ''bad-token''\<rparr>
           in Return p ds1 (tr1 @ [EvWriteMarshal 1 wc' (WriteMarshal env 1 wc')]) h w)
      | Inr vt \<Rightarrow>
      if length (Services p) > 0 \<and> \<not> HasCapability vt ''hzn:serve''
      then (let wc' = wc\<lparr>Status := ''bad-token-capability''\<rparr>
            in Return p ds1 (tr1 @ [EvWriteMarshal 1 wc' (WriteMarshal env 1 wc')]) h w)
      else
     (case add_services h vt (Services p) tr1 w of
        (Some err, tr2, w2) \<Rightarrow> Return p ds1 tr2 h w2
      | (None, tr2, w2) \<Rightarrow>
     (let ds2 = DRemoveServices vt # ds1;
          werr = WriteMarshal env 1 wc;
          tr3 = tr2 @ [EvWriteMarshal 1 wc werr]
      in case werr of
        Some err \<Rightarrow> Return p ds2 tr3 h w2
      | None \<Rightarrow>
     (let tr4 = tr3 @ [EvFwRecycle] in
      case yamux_Server env of
        Inl err \<Rightarrow> Return p ds2 tr4 h w2
      | Inr sess \<Rightarrow>
     (let ds3 = DSessClose sess # ds2;
          h' = h\<lparr>active := active_insert env sess (Services p) (active h)\<rparr>;
          tr5 = tr4 @ map (\<lambda>k. EvActiveSet k sess) (service_keys env p);
          ds4 = DActiveDelete # ds3
      in ActiveAt p vt sess ds4 tr5 h' w2))))))))"

text \<open>
  The accept loop. It ends when \<^verbatim>\<open>AcceptStream\<close> returns an error (\<^verbatim>\<open>io.EOF\<close> when the
  agent disconnects). When the list of results runs out before an error the call blocks
  and \<^verbatim>\<open>handleConn\<close> does not return: the value is \<open>None\<close>. The \<^verbatim>\<open>defer\<close> statements
  of the loop body push on the stack of \<^verbatim>\<open>handleConn\<close> itself.
\<close>

fun accept_loop ::
  "accept_result list \<Rightarrow> deferred list \<Rightarrow> event list \<Rightarrow> (deferred list \<times> event list) option" where
  "accept_loop [] ds tr = None"
| "accept_loop (AcceptErr err # rest) ds tr = Some (ds, tr)"
| "accept_loop (AcceptOk sid frerr fwerr # rest) ds tr =
     (case frerr of
        Some e \<Rightarrow> accept_loop rest ds tr
      | None \<Rightarrow>
          (let ds1 = DStreamFrRecycle sid # ds in
           case fwerr of
             Some e \<Rightarrow> accept_loop rest ds1 tr
           | None \<Rightarrow>
               accept_loop rest (DStreamFwRecycle sid # ds1) (tr @ [EvGoHandleAgentStream sid])))"

fun run_one ::
  "conn_env \<Rightarrow> preamble \<Rightarrow> deferred \<Rightarrow> event list \<times> 'w hub \<times> 'w \<Rightarrow> event list \<times> 'w hub \<times> 'w" where
  "run_one env p DConnClose (tr, h, w) = (tr @ [EvConnClose], h, w)"
| "run_one env p DFrRecycle (tr, h, w) = (tr @ [EvFrRecycle], h, w)"
| "run_one env p (DRemoveServices vt) (tr, h, w) =
     (let (tr', w') = remove_services h vt (Services p) tr w in (tr', h, w'))"
| "run_one env p (DSessClose sess) (tr, h, w) = (tr @ [EvSessClose sess], h, w)"
| "run_one env p DActiveDelete (tr, h, w) =
     (tr @ map EvActiveDelete (service_keys env p),
      h\<lparr>active := active_delete env (Services p) (active h)\<rparr>, w)"
| "run_one env p (DStreamFrRecycle sid) (tr, h, w) = (tr @ [EvStreamFrRecycle sid], h, w)"
| "run_one env p (DStreamFwRecycle sid) (tr, h, w) = (tr @ [EvStreamFwRecycle sid], h, w)"

fun run_deferred ::
  "conn_env \<Rightarrow> preamble \<Rightarrow> deferred list \<Rightarrow> event list \<times> 'w hub \<times> 'w \<Rightarrow> event list \<times> 'w hub \<times> 'w" where
  "run_deferred env p [] s = s"
| "run_deferred env p (d # ds) s = run_deferred env p ds (run_one env p d s)"

definition handleConn :: "conn_env \<Rightarrow> 'w hub \<Rightarrow> 'w \<Rightarrow> (event list \<times> 'w hub \<times> 'w) option" where
  "handleConn env h w =
     (case handshake env h w of
        Return p ds tr h' w' \<Rightarrow> Some (run_deferred env p ds (tr, h', w'))
      | ActiveAt p vt sess ds tr h' w' \<Rightarrow>
          (case accept_loop (AcceptStream env) ds tr of
             None \<Rightarrow> None
           | Some (ds', tr') \<Rightarrow> Some (run_deferred env p ds' (tr', h', w'))))"

text \<open>Readings of a trace.\<close>

fun confirmations :: "event list \<Rightarrow> confirmation list" where
  "confirmations [] = []"
| "confirmations (EvWriteMarshal tag c r # tr) = c # confirmations tr"
| "confirmations (e # tr) = confirmations tr"

fun added :: "event list \<Rightarrow> (service_request \<times> error option) list" where
  "added [] = []"
| "added (EvAddService req r # tr) = (req, r) # added tr"
| "added (e # tr) = added tr"

fun removed :: "event list \<Rightarrow> (service_request \<times> error option) list" where
  "removed [] = []"
| "removed (EvRemoveService req r # tr) = (req, r) # removed tr"
| "removed (e # tr) = removed tr"

fun active_writes :: "event list \<Rightarrow> event list" where
  "active_writes [] = []"
| "active_writes (EvActiveSet k s # tr) = EvActiveSet k s # active_writes tr"
| "active_writes (EvActiveDelete k # tr) = EvActiveDelete k # active_writes tr"
| "active_writes (e # tr) = active_writes tr"

section \<open>The broadcaster\<close>

text \<open>
  \<^verbatim>\<open>pb.HubServicesClient\<close> is an interface: a value of it is its two methods, each a call
  to a remote hub. \<^verbatim>\<open>HubCatalog\<close> is the interface of one method \<^verbatim>\<open>Targets\<close>, which reads
  the world. The \<^verbatim>\<open>Broadcaster\<close> struct holds a catalog and the function \<^verbatim>\<open>conn\<close>.
\<close>

record 'w HubServicesClient =
  client_AddServices :: "account_services \<Rightarrow> 'w \<Rightarrow> (noop option \<times> error option) \<times> 'w"
  client_AddLabeLink :: "label_links \<Rightarrow> 'w \<Rightarrow> (noop option \<times> error option) \<times> 'w"

record 'w Broadcaster =
  catalog_Targets :: "'w \<Rightarrow> string list"
  conn :: "string \<Rightarrow> 'w \<Rightarrow> (error + 'w HubServicesClient) \<times> 'w"

text \<open>
  \<^verbatim>\<open>multierror.Append\<close> of the library go-multierror, for the one use made of it: the
  accumulator is nil or a \<^verbatim>\<open>*multierror.Error\<close> holding the list of errors appended so
  far, and the appended error is never nil.
\<close>

type_synonym multierror = "error list"

definition multierror_Append :: "multierror option \<Rightarrow> error \<Rightarrow> multierror option" where
  "multierror_Append topError err = (case topError of None \<Rightarrow> Some [err] | Some errs \<Rightarrow> Some (errs @ [err]))"

text \<open>The accumulator that holds a given list of errors: nil when there is none.\<close>

definition top_of :: "error list \<Rightarrow> multierror option" where
  "top_of errs = (if errs = [] then None else Some errs)"

text \<open>The trace of a broadcast: each call of \<^verbatim>\<open>conn\<close> and of \<^verbatim>\<open>AddServices\<close>, with its error.\<close>

datatype bc_event =
    EvConn string "error option"
  | EvAddServices string "error option"

fun advertise_loop ::
  "'w Broadcaster \<Rightarrow> account_services \<Rightarrow> string list \<Rightarrow> multierror option \<Rightarrow> bc_event list \<Rightarrow> 'w
     \<Rightarrow> multierror option \<times> bc_event list \<times> 'w" where
  "advertise_loop b svcs [] topError tr w = (topError, tr, w)"
| "advertise_loop b svcs (tgt # rest) topError tr w =
     (case conn b tgt w of
        (Inl err, w1) \<Rightarrow>
          advertise_loop b svcs rest (multierror_Append topError err) (tr @ [EvConn tgt (Some err)]) w1
      | (Inr client, w1) \<Rightarrow>
          (case client_AddServices client svcs w1 of
             ((r, Some err), w2) \<Rightarrow>
               advertise_loop b svcs rest (multierror_Append topError err)
                 (tr @ [EvConn tgt None, EvAddServices tgt (Some err)]) w2
           | ((r, None), w2) \<Rightarrow>
               advertise_loop b svcs rest topError
                 (tr @ [EvConn tgt None, EvAddServices tgt None]) w2))"

definition AdvertiseServices ::
  "'w Broadcaster \<Rightarrow> account_services \<Rightarrow> 'w \<Rightarrow> multierror option \<times> bc_event list \<times> 'w" where
  "AdvertiseServices b svcs w = advertise_loop b svcs (catalog_Targets b w) None [] w"

fun attempted :: "bc_event list \<Rightarrow> string list" where
  "attempted [] = []"
| "attempted (EvConn tgt r # tr) = tgt # attempted tr"
| "attempted (e # tr) = attempted tr"

fun failures :: "bc_event list \<Rightarrow> error list" where
  "failures [] = []"
| "failures (EvConn tgt (Some err) # tr) = err # failures tr"
| "failures (EvAddServices tgt (Some err) # tr) = err # failures tr"
| "failures (e # tr) = failures tr"

fun updated :: "bc_event list \<Rightarrow> string list" where
  "updated [] = []"
| "updated (EvAddServices tgt None # tr) = tgt # updated tr"
| "updated (e # tr) = updated tr"

section \<open>The connection pool\<close>

text \<open>
  A \<^verbatim>\<open>*grpc.ClientConn\<close> is known by its identity; \<^verbatim>\<open>pb.NewHubServicesClient(cc)\<close> is
  the client stub over \<open>cc\<close>. The TLS configuration is kept as the list of pinned root
  certificates, if any.
\<close>

type_synonym client_conn = nat

datatype grpc_client = NewHubServicesClient client_conn

datatype compressor = Lz4

datatype dial_option =
    UseCompressor compressor
  | WithPerRPCCredentials string
  | WithTransportCredentials "string list option"

record GRPCDial =
  token :: string
  cert :: "string option"
  grpcConns :: "string \<rightharpoonup> client_conn"
  tlscfg :: "string list option"

definition dial_opts :: "GRPCDial \<Rightarrow> dial_option list" where
  "dial_opts g =
     [UseCompressor Lz4]
     @ (if token g \<noteq> [] then [WithPerRPCCredentials (token g)] else [])
     @ [WithTransportCredentials (tlscfg g)]"

text \<open>
  \<^verbatim>\<open>Dial\<close> run by one caller with no other caller in between. \<open>grpc_Dial\<close> is
  \<^verbatim>\<open>grpc.Dial\<close>. The second lookup is the re-check under the write lock.
\<close>

definition Dial ::
  "(string \<Rightarrow> dial_option list \<Rightarrow> 'w \<Rightarrow> (error + client_conn) \<times> 'w) \<Rightarrow> GRPCDial \<Rightarrow> string \<Rightarrow> 'w
     \<Rightarrow> (error + grpc_client) \<times> GRPCDial \<times> 'w" where
  "Dial grpc_Dial g target w =
     (case grpcConns g target of
        Some cc \<Rightarrow> (Inr (NewHubServicesClient cc), g, w)
      | None \<Rightarrow>
          (case grpcConns g target of
             Some cc \<Rightarrow> (Inr (NewHubServicesClient cc), g, w)
           | None \<Rightarrow>
               (case grpc_Dial target (dial_opts g) w of
                  (Inl err, w') \<Rightarrow> (Inl err, g, w')
                | (Inr cc, w') \<Rightarrow>
                    (Inr (NewHubServicesClient cc),
                     g\<lparr>grpcConns := (grpcConns g)(target \<mapsto> cc)\<rparr>, w'))))"

section \<open>Readings of a run\<close>

text \<open>
  The result of the handshake taken apart, the events of a list of control-plane calls,
  the condition of the capability check, the two frames the hub writes, and the deferred
  calls and events that belong to the streams of an established session.
\<close>

fun hs_trace :: "'w hs_result \<Rightarrow> event list" where
  "hs_trace (Return p ds tr h w) = tr"
| "hs_trace (ActiveAt p vt sess ds tr h w) = tr"

fun hs_hub :: "'w hs_result \<Rightarrow> 'w hub" where
  "hs_hub (Return p ds tr h w) = h"
| "hs_hub (ActiveAt p vt sess ds tr h w) = h"

fun is_active :: "'w hs_result \<Rightarrow> bool" where
  "is_active (Return p ds tr h w) = False"
| "is_active (ActiveAt p vt sess ds tr h w) = True"

definition add_events :: "(service_request \<times> error option) list \<Rightarrow> event list" where
  "add_events xs = map (\<lambda>(req, r). EvAddService req r) xs"

definition remove_events :: "(service_request \<times> error option) list \<Rightarrow> event list" where
  "remove_events xs = map (\<lambda>(req, r). EvRemoveService req r) xs"

definition capability_missing :: "preamble \<Rightarrow> valid_token \<Rightarrow> bool" where
  "capability_missing p vt = (length (Services p) > 0 \<and> \<not> HasCapability vt ''hzn:serve'')"

definition rejection :: "conn_env \<Rightarrow> string \<Rightarrow> event" where
  "rejection env st =
     EvWriteMarshal 1 ((new_confirmation env)\<lparr>Status := st\<rparr>)
       (WriteMarshal env 1 ((new_confirmation env)\<lparr>Status := st\<rparr>))"

definition connected_write :: "conn_env \<Rightarrow> event" where
  "connected_write env = EvWriteMarshal 1 (new_confirmation env) (WriteMarshal env 1 (new_confirmation env))"

fun is_stream_deferred :: "deferred \<Rightarrow> bool" where
  "is_stream_deferred (DStreamFrRecycle sid) = True"
| "is_stream_deferred (DStreamFwRecycle sid) = True"
| "is_stream_deferred d = False"

fun is_stream_event :: "event \<Rightarrow> bool" where
  "is_stream_event (EvGoHandleAgentStream sid) = True"
| "is_stream_event (EvStreamFrRecycle sid) = True"
| "is_stream_event (EvStreamFwRecycle sid) = True"
| "is_stream_event e = False"

text \<open>
  The Confirmation status as the specification words it: \<^verbatim>\<open>"bad-token"\<close> when token
  validation fails; \<^verbatim>\<open>"bad-token-capability"\<close> when the token is valid, the Preamble
  advertises one or more services and the token lacks \<^verbatim>\<open>hzn:serve\<close>; \<^verbatim>\<open>"connected"\<close>
  otherwise.
\<close>

definition spec_confirmation_status :: "'w hub \<Rightarrow> preamble \<Rightarrow> string" where
  "spec_confirmation_status h p =
     (case ValidateToken h (Token p) of
        Inl e \<Rightarrow> ''bad-token''
      | Inr vt \<Rightarrow>
          if Services p \<noteq> [] \<and> \<not> HasCapability vt ''hzn:serve'' then ''bad-token-capability''
          else ''connected'')"

section \<open>The connection pool under concurrent callers\<close>

text \<open>
  Several goroutines call \<^verbatim>\<open>Dial\<close> on one \<^verbatim>\<open>GRPCDial\<close>. Each caller is at one of the
  following places of the method; a step takes one caller from one place to the next, and
  the steps of different callers interleave in any order.
  \<^item> \<open>AtRLock\<close>: before \<^verbatim>\<open>g.mu.RLock()\<close>;
  \<^item> \<open>AtLookup\<close>: holding the read lock, before \<^verbatim>\<open>cc, ok := g.grpcConns[target]\<close>;
  \<^item> \<open>AtRUnlock r\<close>: holding the read lock with the lookup's result \<open>r\<close>, before
    \<^verbatim>\<open>g.mu.RUnlock()\<close> and the test of \<^verbatim>\<open>ok\<close>;
  \<^item> \<open>AtLock\<close>: before \<^verbatim>\<open>g.mu.Lock()\<close>;
  \<^item> \<open>AtRecheck\<close>: holding the write lock, before the second lookup;
  \<^item> \<open>AtGrpcDial\<close>: holding the write lock, before \<^verbatim>\<open>grpc.Dial(target, opts...)\<close>;
  \<^item> \<open>AtInsert cc\<close>: holding the write lock, before \<^verbatim>\<open>g.grpcConns[target] = cc\<close>;
  \<^item> \<open>AtUnlock r\<close>: holding the write lock with the result \<open>r\<close> to return, before the
    deferred \<^verbatim>\<open>g.mu.Unlock()\<close>;
  \<^item> \<open>Returned r\<close>: the call has returned \<open>r\<close>.
\<close>

datatype dial_pc =
    AtRLock
  | AtLookup
  | AtRUnlock "client_conn option"
  | AtLock
  | AtRecheck
  | AtGrpcDial
  | AtInsert client_conn
  | AtUnlock "error + grpc_client"
  | Returned "error + grpc_client"

text \<open>
  The state shared by the callers: the pool, the \<^verbatim>\<open>sync.RWMutex\<close> as the number of read
  locks held and whether the write lock is held, and each caller's target and place.
  \<open>dialed\<close> records every connection \<^verbatim>\<open>grpc.Dial\<close> has created, with its target; the
  program does not read it.
\<close>

record pool_state =
  pool :: GRPCDial
  readers :: nat
  writer :: bool
  callers :: "(string \<times> dial_pc) list"
  dialed :: "(string \<times> client_conn) list"

definition set_pc :: "nat \<Rightarrow> dial_pc \<Rightarrow> pool_state \<Rightarrow> pool_state" where
  "set_pc i pc s = s\<lparr>callers := (callers s)[i := (fst (callers s ! i), pc)]\<rparr>"

text \<open>
  One step of caller \<open>i\<close>. \<open>outcome\<close> is what \<^verbatim>\<open>grpc.Dial\<close> returns should this step be
  the call of it. A caller that does not exist, has returned, or waits for a lock it cannot
  take leaves the state as it is. \<^verbatim>\<open>RLock\<close> is granted when the write lock is free,
  \<^verbatim>\<open>Lock\<close> when no lock is held.
\<close>

definition dial_step :: "(error + client_conn) \<Rightarrow> nat \<Rightarrow> pool_state \<Rightarrow> pool_state" where
  "dial_step outcome i s =
     (if length (callers s) \<le> i then s
      else
        (let target = fst (callers s ! i) in
         case snd (callers s ! i) of
           AtRLock \<Rightarrow>
             if writer s then s else set_pc i AtLookup (s\<lparr>readers := readers s + 1\<rparr>)
         | AtLookup \<Rightarrow> set_pc i (AtRUnlock (grpcConns (pool s) target)) s
         | AtRUnlock r \<Rightarrow>
             (case r of
                Some cc \<Rightarrow>
                  set_pc i (Returned (Inr (NewHubServicesClient cc))) (s\<lparr>readers := readers s - 1\<rparr>)
              | None \<Rightarrow> set_pc i AtLock (s\<lparr>readers := readers s - 1\<rparr>))
         | AtLock \<Rightarrow>
             if writer s \<or> readers s > 0 then s else set_pc i AtRecheck (s\<lparr>writer := True\<rparr>)
         | AtRecheck \<Rightarrow>
             (case grpcConns (pool s) target of
                Some cc \<Rightarrow> set_pc i (AtUnlock (Inr (NewHubServicesClient cc))) s
              | None \<Rightarrow> set_pc i AtGrpcDial s)
         | AtGrpcDial \<Rightarrow>
             (case outcome of
                Inl err \<Rightarrow> set_pc i (AtUnlock (Inl err)) s
              | Inr cc \<Rightarrow> set_pc i (AtInsert cc) (s\<lparr>dialed := dialed s @ [(target, cc)]\<rparr>))
         | AtInsert cc \<Rightarrow>
             set_pc i (AtUnlock (Inr (NewHubServicesClient cc)))
               (s\<lparr>pool := (pool s)\<lparr>grpcConns := (grpcConns (pool s))(target \<mapsto> cc)\<rparr>\<rparr>)
         | AtUnlock r \<Rightarrow> set_pc i (Returned r) (s\<lparr>writer := False\<rparr>)
         | Returned r \<Rightarrow> s))"

text \<open>
  A schedule names, step by step, the caller that moves and the outcome of \<^verbatim>\<open>grpc.Dial\<close>
  for that step. Every interleaving of the callers is the run of some schedule.
\<close>

fun run :: "(nat \<times> (error + client_conn)) list \<Rightarrow> pool_state \<Rightarrow> pool_state" where
  "run [] s = s"
| "run ((i, outcome) # sched) s = run sched (dial_step outcome i s)"

definition pool_start :: "GRPCDial \<Rightarrow> string list \<Rightarrow> pool_state" where
  "pool_start g targets =
     \<lparr>pool = g, readers = 0, writer = False,
      callers = map (\<lambda>t. (t, AtRLock)) targets, dialed = []\<rparr>"

definition created_for :: "string \<Rightarrow> pool_state \<Rightarrow> client_conn list" where
  "created_for t s = map snd (filter (\<lambda>x. fst x = t) (dialed s))"

fun reading :: "dial_pc \<Rightarrow> bool" where
  "reading AtLookup = True"
| "reading (AtRUnlock r) = True"
| "reading pc = False"

fun writing :: "dial_pc \<Rightarrow> bool" where
  "writing AtRecheck = True"
| "writing AtGrpcDial = True"
| "writing (AtInsert cc) = True"
| "writing (AtUnlock r) = True"
| "writing pc = False"

fun returned :: "dial_pc \<Rightarrow> bool" where
  "returned (Returned r) = True"
| "returned pc = False"

definition all_returned :: "pool_state \<Rightarrow> bool" where
  "all_returned s = list_all (\<lambda>x. returned (snd x)) (callers s)"

definition read_locks :: "(string \<times> dial_pc) list \<Rightarrow> nat" where
  "read_locks cs = sum_list (map (\<lambda>x. if reading (snd x) then 1 else 0) cs)"

text \<open>The steps a caller still has to take, at most.\<close>

fun steps_left :: "dial_pc \<Rightarrow> nat" where
  "steps_left AtRLock = 8"
| "steps_left AtLookup = 7"
| "steps_left (AtRUnlock r) = 6"
| "steps_left AtLock = 5"
| "steps_left AtRecheck = 4"
| "steps_left AtGrpcDial = 3"
| "steps_left (AtInsert cc) = 2"
| "steps_left (AtUnlock r) = 1"
| "steps_left (Returned r) = 0"

definition work_left :: "pool_state \<Rightarrow> nat" where
  "work_left s = sum_list (map (\<lambda>x. steps_left (snd x)) (callers s))"

text \<open>
  The lock discipline: the count of read locks is the number of callers between
  \<^verbatim>\<open>RLock\<close> and \<^verbatim>\<open>RUnlock\<close>, the write lock is held exactly when some caller is between
  \<^verbatim>\<open>Lock\<close> and \<^verbatim>\<open>Unlock\<close>, at most one caller is, and then no read lock is held.
\<close>

definition lock_inv :: "pool_state \<Rightarrow> bool" where
  "lock_inv s =
     (readers s = read_locks (callers s)
      \<and> (writer s = (\<exists>i < length (callers s). writing (snd (callers s ! i))))
      \<and> (\<forall>i < length (callers s). \<forall>j < length (callers s).
            writing (snd (callers s ! i)) \<and> writing (snd (callers s ! j)) \<longrightarrow> i = j)
      \<and> (writer s \<longrightarrow> readers s = 0))"

text \<open>
  What a caller's place says about the cache entry of its target, and the invariant that
  ties the cache to the connections created: a target cached from the start has none
  created; a target not cached from the start has exactly its cached connection created,
  or none while it is not cached and no caller is about to insert one.
\<close>

fun place_ok :: "pool_state \<Rightarrow> string \<Rightarrow> dial_pc \<Rightarrow> bool" where
  "place_ok s t (AtRUnlock (Some c)) = (grpcConns (pool s) t = Some c)"
| "place_ok s t AtGrpcDial = (grpcConns (pool s) t = None)"
| "place_ok s t (AtInsert c) = (grpcConns (pool s) t = None \<and> created_for t s = [c])"
| "place_ok s t (AtUnlock (Inr (NewHubServicesClient c))) = (grpcConns (pool s) t = Some c)"
| "place_ok s t (Returned (Inr (NewHubServicesClient c))) = (grpcConns (pool s) t = Some c)"
| "place_ok s t pc = True"

fun inserting :: "dial_pc \<Rightarrow> bool" where
  "inserting (AtInsert c) = True"
| "inserting pc = False"

definition conn_inv :: "GRPCDial \<Rightarrow> pool_state \<Rightarrow> bool" where
  "conn_inv g s =
     ((\<forall>i < length (callers s). place_ok s (fst (callers s ! i)) (snd (callers s ! i)))
      \<and> (\<forall>t c. grpcConns g t = Some c \<longrightarrow> grpcConns (pool s) t = Some c \<and> created_for t s = [])
      \<and> (\<forall>t. grpcConns g t = None \<and> grpcConns (pool s) t = None
               \<and> (\<forall>i < length (callers s). \<not> (fst (callers s ! i) = t \<and> inserting (snd (callers s ! i))))
             \<longrightarrow> created_for t s = [])
      \<and> (\<forall>t c. grpcConns g t = None \<and> grpcConns (pool s) t = Some c \<longrightarrow> created_for t s = [c]))"

definition can_step :: "pool_state \<Rightarrow> nat \<Rightarrow> bool" where
  "can_step s i =
     (i < length (callers s) \<and>
      (case snd (callers s ! i) of
         AtRLock \<Rightarrow> \<not> writer s
       | AtLock \<Rightarrow> \<not> writer s \<and> readers s = 0
       | Returned r \<Rightarrow> False
       | _ \<Rightarrow> True))"

text \<open>
  The error a caller is about to return or has returned, and the statement that every
  such error is the result of a \<^verbatim>\<open>grpc.Dial\<close> call of that same caller in the set \<open>A\<close> of
  scheduled steps.
\<close>

fun error_of :: "dial_pc \<Rightarrow> error option" where
  "error_of (AtUnlock (Inl e)) = Some e"
| "error_of (Returned (Inl e)) = Some e"
| "error_of pc = None"

definition errors_from :: "(nat \<times> (error + client_conn)) set \<Rightarrow> pool_state \<Rightarrow> bool" where
  "errors_from A s =
     (\<forall>j < length (callers s). \<forall>e. error_of (snd (callers s ! j)) = Some e \<longrightarrow> (j, Inl e) \<in> A)"

section \<open>Concrete inputs\<close>

text \<open>
  Tokens, a control client and calls used to evaluate the model. The world of the
  concrete client is the log of the calls that reached the control plane.
\<close>

definition control_token :: valid_token where
  "control_token = \<lparr>Body = \<lparr>Role = CONTROL, Capabilities = [], TokNamespace = ''/ops'', TokAccountId = ''ctl''\<rparr>\<rparr>"

definition agent_token :: valid_token where
  "agent_token = \<lparr>Body = \<lparr>Role = AGENT, Capabilities = [''hzn:serve''], TokNamespace = ''/acme'', TokAccountId = ''agent1''\<rparr>\<rparr>"

definition plain_token :: valid_token where
  "plain_token = \<lparr>Body = \<lparr>Role = AGENT, Capabilities = [''hzn:connect''], TokNamespace = ''/acme'', TokAccountId = ''agent2''\<rparr>\<rparr>"

definition demo_check :: "string \<Rightarrow> error + valid_token" where
  "demo_check s =
     (if s = ''control'' then Inr control_token
      else if s = ''agent'' then Inr agent_token
      else if s = ''plain'' then Inr plain_token
      else Inl (ErrOther ''bad signature''))"

definition demo_client :: "string list control_client" where
  "demo_client =
     \<lparr>cc_Id = ''hub-1'',
      cc_CheckToken = demo_check,
      cc_AddService = (\<lambda>req w. (if Id req = ''full'' then Some (ErrOther ''rejected'') else None, w @ [''add '' @ Id req])),
      cc_RemoveService = (\<lambda>req w. (if Id req = ''gone'' then Some (ErrOther ''unreachable'') else None, w @ [''remove '' @ Id req])),
      cc_AddRecentAccountServices = (\<lambda>svcs w. (Some (ErrOther ''table full''), w @ [''services''])),
      cc_AddRecentLabelLinks = (\<lambda>ls w. (Some (ErrOther ''table full''), w @ [''links'']))\<rparr>"

definition demo_services :: account_services where
  "demo_services = (\<lparr>Namespace = ''/acme'', AcctId = ''agent1''\<rparr>, [])"

text \<open>
  A catalog of three hubs, the second of which refuses the update. The world is the list
  of hubs that have received it.
\<close>

definition demo_hub_client :: "string \<Rightarrow> string list HubServicesClient" where
  "demo_hub_client tgt =
     \<lparr>client_AddServices = (\<lambda>svcs w.
        if tgt = ''hub2:443'' then ((None, Some (ErrOther ''unavailable'')), w)
        else ((Some Noop, None), w @ [tgt])),
      client_AddLabeLink = (\<lambda>ls w. ((Some Noop, None), w))\<rparr>"

definition demo_broadcaster :: "string list Broadcaster" where
  "demo_broadcaster =
     \<lparr>catalog_Targets = (\<lambda>w. [''hub1:443'', ''hub2:443'', ''hub3:443'']),
      conn = (\<lambda>tgt w. (Inr (demo_hub_client tgt), w))\<rparr>"

definition demo_pool :: GRPCDial where
  "demo_pool = \<lparr>token = ''control'', cert = None, grpcConns = Map.empty, tlscfg = None\<rparr>"


text \<open>
  A connection that presents the given token and advertises the services of the given ids,
  accepts one stream and is then closed by the agent; and the hub it reaches.
\<close>

definition demo_service :: "string \<Rightarrow> service_info" where
  "demo_service i = \<lparr>ServiceId = i, SiType = ''http'', SiLabels = [''env=prod''], SiMetadata = []\<rparr>"

definition demo_preamble :: "string \<Rightarrow> string list \<Rightarrow> preamble" where
  "demo_preamble tok ids = \<lparr>Token = tok, SessionId = ''s1'', Services = map demo_service ids\<rparr>"

definition demo_env :: "string \<Rightarrow> string list \<Rightarrow> conn_env" where
  "demo_env tok ids =
     \<lparr>SpecString = (\<lambda>u. u),
      NewFramingReader = None,
      ReadMarshal = Inr (1, demo_preamble tok ids),
      NowUnix = 1600000000,
      NowNanosecond = 5,
      NewFramingWriter = None,
      WriteMarshal = (\<lambda>tag c. None),
      yamux_Server = Inr 7,
      AcceptStream = [AcceptOk 1 None None, AcceptErr EOF]\<rparr>"

definition demo_hub :: "string list hub" where
  "demo_hub = NewHub demo_client"

text \<open>
  A hub on which session 3 already serves the service \<^verbatim>\<open>web\<close>: an agent that
  reconnects before its old connection has been torn down finds it so.
\<close>

definition busy_hub :: "string list hub" where
  "busy_hub = demo_hub\<lparr>active := [''web'' \<mapsto> 3]\<rparr>"

text \<open>
  Schedules for two callers of \<^verbatim>\<open>Dial\<close> on the same target. In each both callers take the
  read lock, look the target up and find nothing before either takes the write lock. In
  the first every \<^verbatim>\<open>grpc.Dial\<close> succeeds (and caller 0 is once scheduled while it waits
  for the write lock); in the second the \<^verbatim>\<open>grpc.Dial\<close> of caller 0 fails; in the third
  every \<^verbatim>\<open>grpc.Dial\<close> fails.
\<close>

definition demo_schedule :: "(nat \<times> (error + client_conn)) list" where
  "demo_schedule =
     map (\<lambda>i. (i, Inr 101)) [0, 1, 0, 1, 0, 1, 1, 0, 1, 1, 1, 1, 0, 0, 0]"

definition failing_schedule :: "(nat \<times> (error + client_conn)) list" where
  "failing_schedule =
     map (\<lambda>i. (i, Inr 101)) [0, 1, 0, 1, 0, 1, 0, 0]
     @ [(0, Inl (ErrOther ''no route''))]
     @ map (\<lambda>i. (i, Inr 101)) [0, 1, 1, 1, 1, 1]"

definition refused_schedule :: "(nat \<times> (error + client_conn)) list" where
  "refused_schedule =
     map (\<lambda>i. (i, Inl (ErrOther ''no route''))) [0, 1, 0, 1, 0, 1, 0, 0, 0, 0, 1, 1, 1, 1]"

section \<open>Inbound control-plane calls\<close>

lemma md_get_upd: "md_get (md(k \<mapsto> vs)) k = vs" by (simp add: md_get_def)

text \<open>
  Claim C5, as amended. For every inbound control-plane call (\<^verbatim>\<open>AddServices\<close>,
  \<^verbatim>\<open>AddLabeLink\<close>): absent metadata and an absent or empty \<^verbatim>\<open>authorization\<close> entry are
  both rejected with the same error \<^verbatim>\<open>ErrBadControlToken\<close>; an entry of several values is
  not rejected for that reason: its first value is the token and the result does not
  depend on the others; the check passes exactly when that first value validates to a token
  of role \<^verbatim>\<open>CONTROL\<close>; and a call whose check fails returns the check's error with the
  world as it was, so no mutation has been performed.
\<close>

theorem inbound_token_check:
  "(ctx = None \<or> (\<exists>md. ctx = Some md \<and> md_get md ''authorization'' = [])
      \<longrightarrow> checkValidToken c ctx = Some ErrBadControlToken)
   \<and> checkValidToken c (Some (md(''authorization'' \<mapsto> t # rest)))
       = checkValidToken c (Some (md(''authorization'' \<mapsto> [t])))
   \<and> (checkValidToken c ctx = None \<longleftrightarrow>
        (\<exists>md vt. ctx = Some md \<and> md_get md ''authorization'' \<noteq> []
           \<and> cc_CheckToken c (hd (md_get md ''authorization'')) = Inr vt \<and> Role (Body vt) = CONTROL))
   \<and> (checkValidToken c ctx \<noteq> None \<longrightarrow>
        AddServices c ctx svcs w = ((None, checkValidToken c ctx), w)
        \<and> AddLabeLink c ctx ls w = ((None, checkValidToken c ctx), w))"
proof (intro conjI impI)
  assume "ctx = None \<or> (\<exists>md. ctx = Some md \<and> md_get md ''authorization'' = [])"
  then show "checkValidToken c ctx = Some ErrBadControlToken"
    by (auto simp: checkValidToken_def)
next
  show "checkValidToken c (Some (md(''authorization'' \<mapsto> t # rest)))
       = checkValidToken c (Some (md(''authorization'' \<mapsto> [t])))"
    by (simp add: checkValidToken_def md_get_upd)
next
  show "checkValidToken c ctx = None \<longleftrightarrow>
        (\<exists>md vt. ctx = Some md \<and> md_get md ''authorization'' \<noteq> []
           \<and> cc_CheckToken c (hd (md_get md ''authorization'')) = Inr vt \<and> Role (Body vt) = CONTROL)"
    by (cases ctx) (auto simp: checkValidToken_def Let_def hd_conv_nth split: sum.splits if_splits)
next
  assume "checkValidToken c ctx \<noteq> None"
  then show "AddServices c ctx svcs w = ((None, checkValidToken c ctx), w)"
    by (auto simp: AddServices_def)
next
  assume "checkValidToken c ctx \<noteq> None"
  then show "AddLabeLink c ctx ls w = ((None, checkValidToken c ctx), w)"
    by (auto simp: AddLabeLink_def)
qed

text \<open>
  The claim as first stated has every entry of several values rejected. Here the entry
  holds two values, the first a valid \<^verbatim>\<open>CONTROL\<close> token: the check passes and the mutation
  is performed.
\<close>

theorem multi_valued_authorization_counterexample:
  "length (md_get [''authorization'' \<mapsto> [''control'', ''agent'']] ''authorization'') = 2
   \<and> checkValidToken demo_client (Some [''authorization'' \<mapsto> [''control'', ''agent'']]) = None
   \<and> AddServices demo_client (Some [''authorization'' \<mapsto> [''control'', ''agent'']]) demo_services []
       = ((Some Noop, Some (ErrOther ''table full'')), [''services''])"
  by (simp add: md_get_def checkValidToken_def AddServices_def demo_client_def demo_check_def control_token_def)

theorem inbound_token_check_witness:
  "checkValidToken demo_client None = Some ErrBadControlToken
   \<and> checkValidToken demo_client (Some Map.empty) = Some ErrBadControlToken
   \<and> checkValidToken demo_client (Some [''authorization'' \<mapsto> [''agent'', ''control'']])
       = checkValidToken demo_client (Some [''authorization'' \<mapsto> [''agent'']])
   \<and> checkValidToken demo_client (Some [''authorization'' \<mapsto> [''agent'']])
       = Some (Wrapf ErrBadControlToken ''role was: %s'' AGENT)
   \<and> AddServices demo_client (Some [''authorization'' \<mapsto> [''agent'']]) demo_services []
       = ((None, Some (Wrapf ErrBadControlToken ''role was: %s'' AGENT)), [])
   \<and> AddLabeLink demo_client (Some [''authorization'' \<mapsto> [''agent'']]) [] []
       = ((None, Some (Wrapf ErrBadControlToken ''role was: %s'' AGENT)), [])"
proof -
  have r: "checkValidToken demo_client (Some [''authorization'' \<mapsto> [''agent'']])
       = Some (Wrapf ErrBadControlToken ''role was: %s'' AGENT)"
    by (simp add: md_get_def checkValidToken_def demo_client_def demo_check_def agent_token_def)
  have e: "md_get Map.empty ''authorization'' = []" by (simp add: md_get_def)
  show ?thesis
    using inbound_token_check [of None demo_client Map.empty "''agent''" "[''control'']" demo_services "[]" "[]"]
      inbound_token_check [of "Some Map.empty" demo_client Map.empty "''agent''" "[''control'']" demo_services "[]" "[]"]
      inbound_token_check [of "Some [''authorization'' \<mapsto> [''agent'']]" demo_client Map.empty "''agent''" "[''control'']" demo_services "[]" "[]"]
      r e
    by simp
qed

text \<open>
  Claim C10. For every \<^verbatim>\<open>AddLabeLink\<close> call whose token check succeeds, the call returns
  a nil error whatever \<^verbatim>\<open>AddRecentLabelLinks\<close> returned: the mutation has run (the world
  is the one it left) and its error is dropped. \<^verbatim>\<open>AddServices\<close> returns the error of its
  mutation.
\<close>

theorem AddLabeLink_discards_error:
  "checkValidToken c ctx = None \<Longrightarrow>
     AddLabeLink c ctx labels w = ((Some Noop, None), snd (cc_AddRecentLabelLinks c labels w))
     \<and> AddServices c ctx svcs w
         = ((Some Noop, fst (cc_AddRecentAccountServices c svcs w)), snd (cc_AddRecentAccountServices c svcs w))"
  by (simp add: AddLabeLink_def AddServices_def split: prod.splits)

theorem AddLabeLink_discards_error_witness:
  "checkValidToken demo_client (Some [''authorization'' \<mapsto> [''control'']]) = None
   \<and> fst (cc_AddRecentLabelLinks demo_client [] []) = Some (ErrOther ''table full'')
   \<and> AddLabeLink demo_client (Some [''authorization'' \<mapsto> [''control'']]) [] []
       = ((Some Noop, None), [''links''])
   \<and> AddServices demo_client (Some [''authorization'' \<mapsto> [''control'']]) demo_services []
       = ((Some Noop, Some (ErrOther ''table full'')), [''services''])"
proof -
  have ok: "checkValidToken demo_client (Some [''authorization'' \<mapsto> [''control'']]) = None"
    by (simp add: md_get_def checkValidToken_def demo_client_def demo_check_def control_token_def)
  show ?thesis
    using ok AddLabeLink_discards_error [OF ok, of "[]" "[]" demo_services]
    by (simp add: demo_client_def)
qed

section \<open>Broadcasting to every hub\<close>

lemma top_of_append: "multierror_Append (top_of errs) err = top_of (errs @ [err])"
  by (simp add: multierror_Append_def top_of_def)

lemma attempted_append: "attempted (tr @ tr') = attempted tr @ attempted tr'"
  by (induction tr rule: attempted.induct) auto

lemma failures_append: "failures (tr @ tr') = failures tr @ failures tr'"
  by (induction tr rule: failures.induct) auto

lemma updated_append: "updated (tr @ tr') = updated tr @ updated tr'"
  by (induction tr rule: updated.induct) auto

lemma advertise_loop_trace:
  "advertise_loop b svcs tgts (top_of (failures tr)) tr w = (topError, tr', w') \<Longrightarrow>
     attempted tr' = attempted tr @ tgts
     \<and> topError = top_of (failures tr')
     \<and> length (updated tr') + length (failures tr') = length (updated tr) + length (failures tr) + length tgts
     \<and> length (failures tr) \<le> length (failures tr')
     \<and> (length (failures tr') = length (failures tr) \<longrightarrow> updated tr' = updated tr @ tgts)"
proof (induction tgts arbitrary: tr w)
  case Nil
  then show ?case by auto
next
  case (Cons tgt rest)
  show ?case
  proof (cases "conn b tgt w")
    case (Pair r w1)
    show ?thesis
    proof (cases r)
      case (Inl err)
      let ?tr = "tr @ [EvConn tgt (Some err)]"
      from Cons.prems Pair Inl
      have "advertise_loop b svcs rest (top_of (failures ?tr)) ?tr w1 = (topError, tr', w')"
        by (simp add: top_of_append failures_append)
      from Cons.IH [OF this] show ?thesis
        by (auto simp: attempted_append failures_append updated_append)
    next
      case (Inr client)
      obtain r2 oerr w2 where call: "client_AddServices client svcs w1 = ((r2, oerr), w2)"
        by (metis prod.exhaust)
      show ?thesis
      proof (cases oerr)
        case None
        let ?tr = "tr @ [EvConn tgt None, EvAddServices tgt None]"
        from Cons.prems Pair Inr call None
        have "advertise_loop b svcs rest (top_of (failures ?tr)) ?tr w2 = (topError, tr', w')"
          by (simp add: failures_append)
        from Cons.IH [OF this] show ?thesis
          by (auto simp: attempted_append failures_append updated_append)
      next
        case (Some err)
        let ?tr = "tr @ [EvConn tgt None, EvAddServices tgt (Some err)]"
        from Cons.prems Pair Inr call Some
        have "advertise_loop b svcs rest (top_of (failures ?tr)) ?tr w2 = (topError, tr', w')"
          by (simp add: top_of_append failures_append)
        from Cons.IH [OF this] show ?thesis
          by (auto simp: attempted_append failures_append updated_append)
      qed
    qed
  qed
qed

text \<open>
  Claim C4. For every call of \<^verbatim>\<open>Broadcaster.AdvertiseServices\<close> and every list of targets
  the catalog returns: \<^verbatim>\<open>conn\<close> is called for every target, in the catalog's order,
  whatever failed before; the returned error is nil when no call failed and otherwise the
  combined error holding every failure (of \<^verbatim>\<open>conn\<close> or of the remote \<^verbatim>\<open>AddServices\<close>) in
  order; and it is nil if and only if the remote call succeeded at every target.
\<close>

theorem AdvertiseServices_attempts_all:
  assumes "AdvertiseServices b svcs w = (topError, tr, w')"
  shows "attempted tr = catalog_Targets b w
     \<and> topError = (if failures tr = [] then None else Some (failures tr))
     \<and> (topError = None \<longleftrightarrow> updated tr = catalog_Targets b w)"
proof -
  from assms have run: "advertise_loop b svcs (catalog_Targets b w) (top_of (failures [])) [] w = (topError, tr, w')"
    by (simp add: AdvertiseServices_def top_of_def)
  note t = advertise_loop_trace [OF run]
  from t have a: "attempted tr = catalog_Targets b w" by simp
  from t have e: "topError = top_of (failures tr)" by simp
  from t have n: "length (updated tr) + length (failures tr) = length (catalog_Targets b w)" by simp
  from t have u: "failures tr = [] \<longrightarrow> updated tr = catalog_Targets b w" by simp
  have "topError = None \<longleftrightarrow> failures tr = []" using e by (simp add: top_of_def)
  moreover have "updated tr = catalog_Targets b w \<Longrightarrow> failures tr = []" using n by simp
  ultimately show ?thesis using a e u by (auto simp: top_of_def)
qed

theorem AdvertiseServices_attempts_all_witness:
  "AdvertiseServices demo_broadcaster demo_services []
     = (Some [ErrOther ''unavailable''],
        [EvConn ''hub1:443'' None, EvAddServices ''hub1:443'' None,
         EvConn ''hub2:443'' None, EvAddServices ''hub2:443'' (Some (ErrOther ''unavailable'')),
         EvConn ''hub3:443'' None, EvAddServices ''hub3:443'' None],
        [''hub1:443'', ''hub3:443''])
   \<and> attempted (fst (snd (AdvertiseServices demo_broadcaster demo_services [])))
       = [''hub1:443'', ''hub2:443'', ''hub3:443'']
   \<and> updated (fst (snd (AdvertiseServices demo_broadcaster demo_services [])))
       = [''hub1:443'', ''hub3:443'']"
proof -
  have run: "AdvertiseServices demo_broadcaster demo_services []
     = (Some [ErrOther ''unavailable''],
        [EvConn ''hub1:443'' None, EvAddServices ''hub1:443'' None,
         EvConn ''hub2:443'' None, EvAddServices ''hub2:443'' (Some (ErrOther ''unavailable'')),
         EvConn ''hub3:443'' None, EvAddServices ''hub3:443'' None],
        [''hub1:443'', ''hub3:443''])"
    by (simp add: AdvertiseServices_def demo_broadcaster_def demo_hub_client_def multierror_Append_def)
  show ?thesis
    using AdvertiseServices_attempts_all [OF run]
    by (simp add: run)
qed

section \<open>The connection pool, one caller\<close>



section \<open>Lemmas on the hub\<close>

lemma confirmations_append: "confirmations (tr @ tr') = confirmations tr @ confirmations tr'"
  by (induction tr rule: confirmations.induct) auto
lemma added_append: "added (tr @ tr') = added tr @ added tr'"
  by (induction tr rule: added.induct) auto
lemma removed_append: "removed (tr @ tr') = removed tr @ removed tr'"
  by (induction tr rule: removed.induct) auto
lemma active_writes_append: "active_writes (tr @ tr') = active_writes tr @ active_writes tr'"
  by (induction tr rule: active_writes.induct) auto

lemmas reading_append = confirmations_append added_append removed_append active_writes_append

lemma add_events_reading:
  "confirmations (add_events xs) = []" "added (add_events xs) = xs"
  "removed (add_events xs) = []" "active_writes (add_events xs) = []"
  by (induction xs) (auto simp: add_events_def)

lemma remove_events_reading:
  "confirmations (remove_events xs) = []" "added (remove_events xs) = []"
  "removed (remove_events xs) = xs" "active_writes (remove_events xs) = []"
  by (induction xs) (auto simp: remove_events_def)

lemma add_services_shape:
  "add_services h vt ss tr w = (r, tr', w') \<Longrightarrow>
     \<exists>xs. tr' = tr @ add_events xs
       \<and> length xs \<le> length ss
       \<and> map fst xs = map (service_request_of h vt) (take (length xs) ss)
       \<and> (\<forall>x \<in> set (butlast xs). snd x = None)
       \<and> (case r of None \<Rightarrow> length xs = length ss \<and> (\<forall>x \<in> set xs. snd x = None)
                   | Some e \<Rightarrow> xs \<noteq> [] \<and> snd (last xs) = Some e)"
proof (induction ss arbitrary: tr w)
  case Nil
  then show ?case by (auto simp: add_events_def intro: exI [of _ "[]"])
next
  case (Cons serv rest)
  obtain err w1 where call: "cc_AddService (hub_cc h) (service_request_of h vt serv) w = (err, w1)"
    by (cases "cc_AddService (hub_cc h) (service_request_of h vt serv) w")
  let ?x = "(service_request_of h vt serv, err)"
  show ?case
  proof (cases err)
    case (Some e)
    with Cons.prems call have "r = Some e" "tr' = tr @ add_events [?x]"
      by (auto simp: add_events_def)
    with Some show ?thesis
      by (intro exI [of _ "[?x]"]) simp
  next
    case None
    with Cons.prems call
    have "add_services h vt rest (tr @ [EvAddService (service_request_of h vt serv) None]) w1 = (r, tr', w')"
      by simp
    from Cons.IH [OF this] obtain xs where
      xs: "tr' = (tr @ [EvAddService (service_request_of h vt serv) None]) @ add_events xs"
        "length xs \<le> length rest"
        "map fst xs = map (service_request_of h vt) (take (length xs) rest)"
        "\<forall>x \<in> set (butlast xs). snd x = None"
        "case r of None \<Rightarrow> length xs = length rest \<and> (\<forall>x \<in> set xs. snd x = None)
                   | Some e \<Rightarrow> xs \<noteq> [] \<and> snd (last xs) = Some e"
      by blast
    show ?thesis
    proof (intro exI [of _ "?x # xs"] conjI)
      show "tr' = tr @ add_events (?x # xs)" using xs(1) None by (simp add: add_events_def)
      show "length (?x # xs) \<le> length (serv # rest)" using xs(2) by simp
      show "map fst (?x # xs) = map (service_request_of h vt) (take (length (?x # xs)) (serv # rest))"
        using xs(3) by simp
      show "\<forall>x \<in> set (butlast (?x # xs)). snd x = None" using xs(4) None by auto
      show "case r of None \<Rightarrow> length (?x # xs) = length (serv # rest) \<and> (\<forall>x \<in> set (?x # xs). snd x = None)
                   | Some e \<Rightarrow> ?x # xs \<noteq> [] \<and> snd (last (?x # xs)) = Some e"
        using xs(5) None by (auto split: option.splits)
    qed
  qed
qed

lemma remove_services_shape:
  "remove_services h vt ss tr w = (tr', w') \<Longrightarrow>
     \<exists>xs. tr' = tr @ remove_events xs \<and> map fst xs = map (service_request_of h vt) ss"
proof (induction ss arbitrary: tr w)
  case Nil
  then show ?case by (auto simp: remove_events_def)
next
  case (Cons serv rest)
  obtain err w1 where call: "cc_RemoveService (hub_cc h) (service_request_of h vt serv) w = (err, w1)"
    by (cases "cc_RemoveService (hub_cc h) (service_request_of h vt serv) w")
  with Cons.prems
  have "remove_services h vt rest (tr @ [EvRemoveService (service_request_of h vt serv) err]) w1 = (tr', w')"
    by simp
  from Cons.IH [OF this] obtain xs where
    "tr' = (tr @ [EvRemoveService (service_request_of h vt serv) err]) @ remove_events xs"
    "map fst xs = map (service_request_of h vt) rest"
    by blast
  then show ?case
    by (intro exI [of _ "(service_request_of h vt serv, err) # xs"]) (simp add: remove_events_def)
qed

lemma active_insert_apply:
  "active_insert env sess ss a k =
     (if k \<in> set (map (\<lambda>serv. SpecString env (ServiceId serv)) ss) then Some sess else a k)"
  by (induction ss arbitrary: a) auto

lemma active_delete_apply:
  "active_delete env ss a k =
     (if k \<in> set (map (\<lambda>serv. SpecString env (ServiceId serv)) ss) then None else a k)"
  by (induction ss arbitrary: a) auto

lemma hs_reader_err:
  "NewFramingReader env = Some e \<Longrightarrow> handshake env h w = Return zero_preamble [DConnClose] [] h w"
  by (simp add: handshake_def Let_def)

lemma hs_read_err:
  "NewFramingReader env = None \<Longrightarrow> ReadMarshal env = Inl e \<Longrightarrow>
     handshake env h w = Return zero_preamble [DFrRecycle, DConnClose] [] h w"
  by (simp add: handshake_def Let_def)

lemma hs_bad_tag:
  "NewFramingReader env = None \<Longrightarrow> ReadMarshal env = Inr (tag, p) \<Longrightarrow> tag \<noteq> 1 \<Longrightarrow>
     handshake env h w = Return p [DFrRecycle, DConnClose] [] h w"
  by (simp add: handshake_def Let_def)

lemma hs_writer_err:
  "NewFramingReader env = None \<Longrightarrow> ReadMarshal env = Inr (1, p) \<Longrightarrow> NewFramingWriter env = Some e \<Longrightarrow>
     handshake env h w = Return p [DFrRecycle, DConnClose] [] h w"
  by (simp add: handshake_def Let_def)

lemma hs_bad_token:
  "NewFramingReader env = None \<Longrightarrow> ReadMarshal env = Inr (1, p) \<Longrightarrow> NewFramingWriter env = None \<Longrightarrow>
   ValidateToken h (Token p) = Inl e \<Longrightarrow>
     handshake env h w = Return p [DFrRecycle, DConnClose] [EvFwRecycle, rejection env ''bad-token''] h w"
  by (simp add: handshake_def Let_def rejection_def)

lemma hs_bad_capability:
  "NewFramingReader env = None \<Longrightarrow> ReadMarshal env = Inr (1, p) \<Longrightarrow> NewFramingWriter env = None \<Longrightarrow>
   ValidateToken h (Token p) = Inr vt \<Longrightarrow> capability_missing p vt \<Longrightarrow>
     handshake env h w =
       Return p [DFrRecycle, DConnClose] [EvFwRecycle, rejection env ''bad-token-capability''] h w"
  by (simp add: handshake_def Let_def rejection_def capability_missing_def)

lemma hs_registration_err:
  "NewFramingReader env = None \<Longrightarrow> ReadMarshal env = Inr (1, p) \<Longrightarrow> NewFramingWriter env = None \<Longrightarrow>
   ValidateToken h (Token p) = Inr vt \<Longrightarrow> \<not> capability_missing p vt \<Longrightarrow>
   add_services h vt (Services p) [EvFwRecycle] w = (Some e, tr2, w2) \<Longrightarrow>
     handshake env h w = Return p [DFrRecycle, DConnClose] tr2 h w2"
  by (auto simp: handshake_def Let_def capability_missing_def)

lemma hs_write_err:
  "NewFramingReader env = None \<Longrightarrow> ReadMarshal env = Inr (1, p) \<Longrightarrow> NewFramingWriter env = None \<Longrightarrow>
   ValidateToken h (Token p) = Inr vt \<Longrightarrow> \<not> capability_missing p vt \<Longrightarrow>
   add_services h vt (Services p) [EvFwRecycle] w = (None, tr2, w2) \<Longrightarrow>
   WriteMarshal env 1 (new_confirmation env) = Some e \<Longrightarrow>
     handshake env h w =
       Return p [DRemoveServices vt, DFrRecycle, DConnClose] (tr2 @ [connected_write env]) h w2"
  by (auto simp: handshake_def Let_def capability_missing_def connected_write_def)

lemma hs_mux_err:
  "NewFramingReader env = None \<Longrightarrow> ReadMarshal env = Inr (1, p) \<Longrightarrow> NewFramingWriter env = None \<Longrightarrow>
   ValidateToken h (Token p) = Inr vt \<Longrightarrow> \<not> capability_missing p vt \<Longrightarrow>
   add_services h vt (Services p) [EvFwRecycle] w = (None, tr2, w2) \<Longrightarrow>
   WriteMarshal env 1 (new_confirmation env) = None \<Longrightarrow> yamux_Server env = Inl e \<Longrightarrow>
     handshake env h w =
       Return p [DRemoveServices vt, DFrRecycle, DConnClose]
         (tr2 @ [connected_write env, EvFwRecycle]) h w2"
  by (auto simp: handshake_def Let_def capability_missing_def connected_write_def)

lemma hs_active:
  "NewFramingReader env = None \<Longrightarrow> ReadMarshal env = Inr (1, p) \<Longrightarrow> NewFramingWriter env = None \<Longrightarrow>
   ValidateToken h (Token p) = Inr vt \<Longrightarrow> \<not> capability_missing p vt \<Longrightarrow>
   add_services h vt (Services p) [EvFwRecycle] w = (None, tr2, w2) \<Longrightarrow>
   WriteMarshal env 1 (new_confirmation env) = None \<Longrightarrow> yamux_Server env = Inr sess \<Longrightarrow>
     handshake env h w =
       ActiveAt p vt sess
         [DActiveDelete, DSessClose sess, DRemoveServices vt, DFrRecycle, DConnClose]
         (tr2 @ [connected_write env, EvFwRecycle] @ map (\<lambda>k. EvActiveSet k sess) (service_keys env p))
         (h\<lparr>active := active_insert env sess (Services p) (active h)\<rparr>) w2"
  by (auto simp: handshake_def Let_def capability_missing_def connected_write_def)

text \<open>Every run of the handshake follows one of ten paths.\<close>

lemma handshake_cases [case_names ReaderErr ReadErr BadTag WriterErr BadToken BadCapability
    RegistrationErr WriteErr MuxErr Established]:
  obtains
    e where "NewFramingReader env = Some e"
  | e where "NewFramingReader env = None" "ReadMarshal env = Inl e"
  | tag p where "NewFramingReader env = None" "ReadMarshal env = Inr (tag, p)" "tag \<noteq> 1"
  | p e where "NewFramingReader env = None" "ReadMarshal env = Inr (1, p)" "NewFramingWriter env = Some e"
  | p e where "NewFramingReader env = None" "ReadMarshal env = Inr (1, p)" "NewFramingWriter env = None"
      "ValidateToken h (Token p) = Inl e"
  | p vt where "NewFramingReader env = None" "ReadMarshal env = Inr (1, p)" "NewFramingWriter env = None"
      "ValidateToken h (Token p) = Inr vt" "capability_missing p vt"
  | p vt e tr2 w2 where "NewFramingReader env = None" "ReadMarshal env = Inr (1, p)"
      "NewFramingWriter env = None" "ValidateToken h (Token p) = Inr vt" "\<not> capability_missing p vt"
      "add_services h vt (Services p) [EvFwRecycle] w = (Some e, tr2, w2)"
  | p vt tr2 w2 e where "NewFramingReader env = None" "ReadMarshal env = Inr (1, p)"
      "NewFramingWriter env = None" "ValidateToken h (Token p) = Inr vt" "\<not> capability_missing p vt"
      "add_services h vt (Services p) [EvFwRecycle] w = (None, tr2, w2)"
      "WriteMarshal env 1 (new_confirmation env) = Some e"
  | p vt tr2 w2 e where "NewFramingReader env = None" "ReadMarshal env = Inr (1, p)"
      "NewFramingWriter env = None" "ValidateToken h (Token p) = Inr vt" "\<not> capability_missing p vt"
      "add_services h vt (Services p) [EvFwRecycle] w = (None, tr2, w2)"
      "WriteMarshal env 1 (new_confirmation env) = None" "yamux_Server env = Inl e"
  | p vt tr2 w2 sess where "NewFramingReader env = None" "ReadMarshal env = Inr (1, p)"
      "NewFramingWriter env = None" "ValidateToken h (Token p) = Inr vt" "\<not> capability_missing p vt"
      "add_services h vt (Services p) [EvFwRecycle] w = (None, tr2, w2)"
      "WriteMarshal env 1 (new_confirmation env) = None" "yamux_Server env = Inr sess"
proof (cases "NewFramingReader env")
  case (Some e)
  then show ?thesis using that(1) by blast
next
  case reader: None
  show ?thesis
  proof (cases "ReadMarshal env")
    case (Inl e)
    then show ?thesis using that(2) reader by blast
  next
    case (Inr tp)
    obtain tag p where tp: "tp = (tag, p)" by (cases tp)
    show ?thesis
    proof (cases "tag = 1")
      case False
      then show ?thesis using that(3) reader Inr tp by blast
    next
      case True
      with Inr tp have read: "ReadMarshal env = Inr (1, p)" by simp
      show ?thesis
      proof (cases "NewFramingWriter env")
        case (Some e)
        then show ?thesis using that(4) reader read by blast
      next
        case writer: None
        show ?thesis
        proof (cases "ValidateToken h (Token p)")
          case (Inl e)
          then show ?thesis using that(5) reader read writer by blast
        next
          case tok: (Inr vt)
          show ?thesis
          proof (cases "capability_missing p vt")
            case True
            then show ?thesis using that(6) reader read writer tok by blast
          next
            case cap: False
            obtain r tr2 w2 where reg: "add_services h vt (Services p) [EvFwRecycle] w = (r, tr2, w2)"
              by (cases "add_services h vt (Services p) [EvFwRecycle] w")
            show ?thesis
            proof (cases r)
              case (Some e)
              then show ?thesis using that(7) reader read writer tok cap reg by blast
            next
              case None
              with reg have reg': "add_services h vt (Services p) [EvFwRecycle] w = (None, tr2, w2)"
                by simp
              show ?thesis
              proof (cases "WriteMarshal env 1 (new_confirmation env)")
                case (Some e)
                then show ?thesis using that(8) reader read writer tok cap reg' by blast
              next
                case wr: None
                show ?thesis
                proof (cases "yamux_Server env")
                  case (Inl e)
                  then show ?thesis using that(9) reader read writer tok cap reg' wr by blast
                next
                  case (Inr sess)
                  then show ?thesis using that(10) reader read writer tok cap reg' wr by blast
                qed
              qed
            qed
          qed
        qed
      qed
    qed
  qed
qed

lemma stream_events_reading:
  "list_all is_stream_event evs \<Longrightarrow>
     confirmations evs = [] \<and> added evs = [] \<and> removed evs = [] \<and> active_writes evs = []"
proof (induction evs)
  case Nil
  then show ?case by simp
next
  case (Cons e evs)
  then show ?case by (cases e) auto
qed

lemma accept_loop_shape:
  "accept_loop xs ds tr = Some (ds', tr') \<Longrightarrow>
     \<exists>dn evs. ds' = dn @ ds \<and> tr' = tr @ evs
       \<and> list_all is_stream_deferred dn \<and> list_all is_stream_event evs"
proof (induction xs ds tr rule: accept_loop.induct)
  case (1 ds tr)
  then show ?case by simp
next
  case (2 err rest ds tr)
  then show ?case by simp
next
  case (3 sid frerr fwerr rest ds tr)
  show ?case
  proof (cases frerr)
    case (Some e)
    with 3 show ?thesis by simp
  next
    case fr: None
    show ?thesis
    proof (cases fwerr)
      case (Some e)
      with 3 fr obtain dn evs where
        "ds' = dn @ DStreamFrRecycle sid # ds" "tr' = tr @ evs"
        "list_all is_stream_deferred dn" "list_all is_stream_event evs"
        by fastforce
      then show ?thesis
        by (intro exI [of _ "dn @ [DStreamFrRecycle sid]"] exI [of _ evs]) simp
    next
      case None
      with 3 fr obtain dn evs where
        "ds' = dn @ DStreamFwRecycle sid # DStreamFrRecycle sid # ds"
        "tr' = (tr @ [EvGoHandleAgentStream sid]) @ evs"
        "list_all is_stream_deferred dn" "list_all is_stream_event evs"
        by fastforce
      then show ?thesis
        by (intro exI [of _ "dn @ [DStreamFwRecycle sid, DStreamFrRecycle sid]"]
              exI [of _ "EvGoHandleAgentStream sid # evs"]) simp
    qed
  qed
qed

lemma accept_loop_returns:
  "(accept_loop xs ds tr = None) = (\<forall>err. AcceptErr err \<notin> set xs)"
proof (induction xs arbitrary: ds tr)
  case Nil
  show ?case by simp
next
  case (Cons x xs)
  show ?case
  proof (cases x)
    case (AcceptErr err)
    then show ?thesis by auto
  next
    case (AcceptOk sid frerr fwerr)
    then show ?thesis
      by (cases frerr; cases fwerr) (simp_all add: Cons)
  qed
qed

lemma run_deferred_append:
  "run_deferred env p (ds @ ds') s = run_deferred env p ds' (run_deferred env p ds s)"
  by (induction ds arbitrary: s) auto

lemma run_deferred_streams:
  "list_all is_stream_deferred dn \<Longrightarrow>
     \<exists>evs. run_deferred env p dn (tr, h, w) = (tr @ evs, h, w) \<and> list_all is_stream_event evs"
proof (induction dn arbitrary: tr)
  case Nil
  then show ?case by simp
next
  case (Cons d dn)
  then obtain e where step: "run_one env p d (tr, h, w) = (tr @ [e], h, w)" "is_stream_event e"
    by (cases d) auto
  from Cons obtain evs where
    "run_deferred env p dn (tr @ [e], h, w) = ((tr @ [e]) @ evs, h, w)" "list_all is_stream_event evs"
    by fastforce
  with step show ?case
    by (intro exI [of _ "e # evs"]) simp
qed

text \<open>The stacks of deferred calls a run past the registrations ends with, below the streams' own.\<close>

lemma run_deferred_registered:
  "\<exists>ys w'. run_deferred env p [DRemoveServices vt, DFrRecycle, DConnClose] (tr, h, w)
       = (tr @ remove_events ys @ [EvFrRecycle, EvConnClose], h, w')
     \<and> map fst ys = map (service_request_of h vt) (Services p)"
proof -
  obtain tr' w' where rm: "remove_services h vt (Services p) tr w = (tr', w')"
    by (cases "remove_services h vt (Services p) tr w")
  from remove_services_shape [OF rm] obtain ys where
    "tr' = tr @ remove_events ys" "map fst ys = map (service_request_of h vt) (Services p)"
    by blast
  with rm show ?thesis
    by (intro exI [of _ ys] exI [of _ w']) simp
qed

lemma run_deferred_session:
  "\<exists>ys w'. run_deferred env p
         [DActiveDelete, DSessClose sess, DRemoveServices vt, DFrRecycle, DConnClose] (tr, h, w)
       = (tr @ map EvActiveDelete (service_keys env p) @ [EvSessClose sess]
             @ remove_events ys @ [EvFrRecycle, EvConnClose],
          h\<lparr>active := active_delete env (Services p) (active h)\<rparr>, w')
     \<and> map fst ys = map (service_request_of h vt) (Services p)"
proof -
  let ?h = "h\<lparr>active := active_delete env (Services p) (active h)\<rparr>"
  let ?tr = "tr @ map EvActiveDelete (service_keys env p) @ [EvSessClose sess]"
  have req: "service_request_of ?h vt = service_request_of h vt"
    by (rule ext) (simp add: service_request_of_def)
  from run_deferred_registered [of env p vt ?tr ?h w] obtain ys w' where
    "run_deferred env p [DRemoveServices vt, DFrRecycle, DConnClose] (?tr, ?h, w)
       = (?tr @ remove_events ys @ [EvFrRecycle, EvConnClose], ?h, w')"
    "map fst ys = map (service_request_of ?h vt) (Services p)"
    by blast
  then show ?thesis
    by (intro exI [of _ ys] exI [of _ w']) (simp add: req)
qed

lemma hc_reader_err:
  "NewFramingReader env = Some e \<Longrightarrow> handleConn env h w = Some ([EvConnClose], h, w)"
  by (simp add: handleConn_def hs_reader_err)

lemma hc_read_err:
  "NewFramingReader env = None \<Longrightarrow> ReadMarshal env = Inl e \<Longrightarrow>
     handleConn env h w = Some ([EvFrRecycle, EvConnClose], h, w)"
  by (simp add: handleConn_def hs_read_err)

lemma hc_bad_tag:
  "NewFramingReader env = None \<Longrightarrow> ReadMarshal env = Inr (tag, p) \<Longrightarrow> tag \<noteq> 1 \<Longrightarrow>
     handleConn env h w = Some ([EvFrRecycle, EvConnClose], h, w)"
  by (simp add: handleConn_def hs_bad_tag)

lemma hc_writer_err:
  "NewFramingReader env = None \<Longrightarrow> ReadMarshal env = Inr (1, p) \<Longrightarrow> NewFramingWriter env = Some e \<Longrightarrow>
     handleConn env h w = Some ([EvFrRecycle, EvConnClose], h, w)"
  by (simp add: handleConn_def hs_writer_err)

lemma hc_bad_token:
  "NewFramingReader env = None \<Longrightarrow> ReadMarshal env = Inr (1, p) \<Longrightarrow> NewFramingWriter env = None \<Longrightarrow>
   ValidateToken h (Token p) = Inl e \<Longrightarrow>
     handleConn env h w
       = Some ([EvFwRecycle, rejection env ''bad-token'', EvFrRecycle, EvConnClose], h, w)"
  by (simp add: handleConn_def hs_bad_token)

lemma hc_bad_capability:
  "NewFramingReader env = None \<Longrightarrow> ReadMarshal env = Inr (1, p) \<Longrightarrow> NewFramingWriter env = None \<Longrightarrow>
   ValidateToken h (Token p) = Inr vt \<Longrightarrow> capability_missing p vt \<Longrightarrow>
     handleConn env h w
       = Some ([EvFwRecycle, rejection env ''bad-token-capability'', EvFrRecycle, EvConnClose], h, w)"
  by (simp add: handleConn_def hs_bad_capability)

lemma hc_registration_err:
  "NewFramingReader env = None \<Longrightarrow> ReadMarshal env = Inr (1, p) \<Longrightarrow> NewFramingWriter env = None \<Longrightarrow>
   ValidateToken h (Token p) = Inr vt \<Longrightarrow> \<not> capability_missing p vt \<Longrightarrow>
   add_services h vt (Services p) [EvFwRecycle] w = (Some e, tr2, w2) \<Longrightarrow>
     handleConn env h w = Some (tr2 @ [EvFrRecycle, EvConnClose], h, w2)"
  by (simp add: handleConn_def hs_registration_err)

lemma hc_write_err:
  assumes "NewFramingReader env = None" "ReadMarshal env = Inr (1, p)" "NewFramingWriter env = None"
    "ValidateToken h (Token p) = Inr vt" "\<not> capability_missing p vt"
    "add_services h vt (Services p) [EvFwRecycle] w = (None, tr2, w2)"
    "WriteMarshal env 1 (new_confirmation env) = Some e"
  shows "\<exists>ys w'. handleConn env h w
           = Some (tr2 @ [connected_write env] @ remove_events ys @ [EvFrRecycle, EvConnClose], h, w')
         \<and> map fst ys = map (service_request_of h vt) (Services p)"
proof -
  from run_deferred_registered [of env p vt "tr2 @ [connected_write env]" h w2]
  obtain ys w' where
    "run_deferred env p [DRemoveServices vt, DFrRecycle, DConnClose] (tr2 @ [connected_write env], h, w2)
       = ((tr2 @ [connected_write env]) @ remove_events ys @ [EvFrRecycle, EvConnClose], h, w')"
    "map fst ys = map (service_request_of h vt) (Services p)"
    by blast
  then show ?thesis
    by (intro exI [of _ ys] exI [of _ w']) (simp add: handleConn_def hs_write_err [OF assms])
qed

lemma hc_mux_err:
  assumes "NewFramingReader env = None" "ReadMarshal env = Inr (1, p)" "NewFramingWriter env = None"
    "ValidateToken h (Token p) = Inr vt" "\<not> capability_missing p vt"
    "add_services h vt (Services p) [EvFwRecycle] w = (None, tr2, w2)"
    "WriteMarshal env 1 (new_confirmation env) = None" "yamux_Server env = Inl e"
  shows "\<exists>ys w'. handleConn env h w
           = Some (tr2 @ [connected_write env, EvFwRecycle] @ remove_events ys @ [EvFrRecycle, EvConnClose],
                   h, w')
         \<and> map fst ys = map (service_request_of h vt) (Services p)"
proof -
  from run_deferred_registered [of env p vt "tr2 @ [connected_write env, EvFwRecycle]" h w2]
  obtain ys w' where
    "run_deferred env p [DRemoveServices vt, DFrRecycle, DConnClose]
        (tr2 @ [connected_write env, EvFwRecycle], h, w2)
       = ((tr2 @ [connected_write env, EvFwRecycle]) @ remove_events ys @ [EvFrRecycle, EvConnClose], h, w')"
    "map fst ys = map (service_request_of h vt) (Services p)"
    by blast
  then show ?thesis
    by (intro exI [of _ ys] exI [of _ w']) (simp add: handleConn_def hs_mux_err [OF assms])
qed

lemma hc_established:
  assumes "NewFramingReader env = None" "ReadMarshal env = Inr (1, p)" "NewFramingWriter env = None"
    "ValidateToken h (Token p) = Inr vt" "\<not> capability_missing p vt"
    "add_services h vt (Services p) [EvFwRecycle] w = (None, tr2, w2)"
    "WriteMarshal env 1 (new_confirmation env) = None" "yamux_Server env = Inr sess"
    and run: "handleConn env h w = Some (tr', h', w')"
  shows "\<exists>evs ys.
           tr' = tr2 @ [connected_write env, EvFwRecycle]
                  @ map (\<lambda>k. EvActiveSet k sess) (service_keys env p)
                  @ evs
                  @ map EvActiveDelete (service_keys env p) @ [EvSessClose sess]
                  @ remove_events ys @ [EvFrRecycle, EvConnClose]
         \<and> list_all is_stream_event evs
         \<and> map fst ys = map (service_request_of h vt) (Services p)
         \<and> h' = h\<lparr>active := active_delete env (Services p)
                              (active_insert env sess (Services p) (active h))\<rparr>"
proof -
  let ?ds = "[DActiveDelete, DSessClose sess, DRemoveServices vt, DFrRecycle, DConnClose]"
  let ?tr = "tr2 @ [connected_write env, EvFwRecycle] @ map (\<lambda>k. EvActiveSet k sess) (service_keys env p)"
  let ?h = "h\<lparr>active := active_insert env sess (Services p) (active h)\<rparr>"
  have hs: "handshake env h w = ActiveAt p vt sess ?ds ?tr ?h w2"
    by (rule hs_active [OF assms(1-8)])
  from run hs obtain ds' tr1 where
    loop: "accept_loop (AcceptStream env) ?ds ?tr = Some (ds', tr1)"
    and fin: "run_deferred env p ds' (tr1, ?h, w2) = (tr', h', w')"
    by (auto simp: handleConn_def split: option.splits)
  from accept_loop_shape [OF loop] obtain dn evs1 where
    sh: "ds' = dn @ ?ds" "tr1 = ?tr @ evs1" "list_all is_stream_deferred dn" "list_all is_stream_event evs1"
    by blast
  from run_deferred_streams [OF sh(3), of env p tr1 ?h w2] obtain evs2 where
    st: "run_deferred env p dn (tr1, ?h, w2) = (tr1 @ evs2, ?h, w2)" "list_all is_stream_event evs2"
    by blast
  from run_deferred_session [of env p sess vt "tr1 @ evs2" ?h w2] obtain ys w3 where
    se: "run_deferred env p ?ds (tr1 @ evs2, ?h, w2)
       = ((tr1 @ evs2) @ map EvActiveDelete (service_keys env p) @ [EvSessClose sess]
             @ remove_events ys @ [EvFrRecycle, EvConnClose],
          ?h\<lparr>active := active_delete env (Services p) (active ?h)\<rparr>, w3)"
      "map fst ys = map (service_request_of ?h vt) (Services p)"
    by blast
  have req: "service_request_of ?h vt = service_request_of h vt"
    by (rule ext) (simp add: service_request_of_def)
  from fin sh(1) st(1) se(1)
  have res: "tr' = (tr1 @ evs2) @ map EvActiveDelete (service_keys env p) @ [EvSessClose sess]
             @ remove_events ys @ [EvFrRecycle, EvConnClose]"
    "h' = ?h\<lparr>active := active_delete env (Services p) (active ?h)\<rparr>"
    by (simp_all add: run_deferred_append)
  show ?thesis
  proof (intro exI [of _ "evs1 @ evs2"] exI [of _ ys] conjI)
    show "tr' = tr2 @ [connected_write env, EvFwRecycle]
                  @ map (\<lambda>k. EvActiveSet k sess) (service_keys env p)
                  @ (evs1 @ evs2)
                  @ map EvActiveDelete (service_keys env p) @ [EvSessClose sess]
                  @ remove_events ys @ [EvFrRecycle, EvConnClose]"
      using res(1) sh(2) by simp
    show "list_all is_stream_event (evs1 @ evs2)" using sh(4) st(2) by simp
    show "map fst ys = map (service_request_of h vt) (Services p)" using se(2) req by simp
    show "h' = h\<lparr>active := active_delete env (Services p)
                              (active_insert env sess (Services p) (active h))\<rparr>"
      using res(2) by simp
  qed
qed

lemma hc_established_returns:
  assumes "NewFramingReader env = None" "ReadMarshal env = Inr (1, p)" "NewFramingWriter env = None"
    "ValidateToken h (Token p) = Inr vt" "\<not> capability_missing p vt"
    "add_services h vt (Services p) [EvFwRecycle] w = (None, tr2, w2)"
    "WriteMarshal env 1 (new_confirmation env) = None" "yamux_Server env = Inr sess"
  shows "(handleConn env h w = None) = (\<forall>err. AcceptErr err \<notin> set (AcceptStream env))"
proof -
  let ?ds = "[DActiveDelete, DSessClose sess, DRemoveServices vt, DFrRecycle, DConnClose]"
  let ?tr = "tr2 @ [connected_write env, EvFwRecycle] @ map (\<lambda>k. EvActiveSet k sess) (service_keys env p)"
  have "(handleConn env h w = None) = (accept_loop (AcceptStream env) ?ds ?tr = None)"
  proof (cases "accept_loop (AcceptStream env) ?ds ?tr")
    case None
    then show ?thesis by (simp add: handleConn_def hs_active [OF assms])
  next
    case (Some r)
    then show ?thesis by (cases r) (simp add: handleConn_def hs_active [OF assms])
  qed
  then show ?thesis
    by (simp only: accept_loop_returns)
qed

lemma rejection_reading:
  "confirmations (rejection env st # tr) = (new_confirmation env)\<lparr>Status := st\<rparr> # confirmations tr"
  "added (rejection env st # tr) = added tr"
  "removed (rejection env st # tr) = removed tr"
  "active_writes (rejection env st # tr) = active_writes tr"
  by (simp_all add: rejection_def)

lemma connected_reading:
  "confirmations (connected_write env # tr) = new_confirmation env # confirmations tr"
  "added (connected_write env # tr) = added tr"
  "removed (connected_write env # tr) = removed tr"
  "active_writes (connected_write env # tr) = active_writes tr"
  by (simp_all add: connected_write_def)

lemma active_set_reading:
  "confirmations (map (\<lambda>k. EvActiveSet k sess) ks) = []"
  "added (map (\<lambda>k. EvActiveSet k sess) ks) = []"
  "removed (map (\<lambda>k. EvActiveSet k sess) ks) = []"
  "active_writes (map (\<lambda>k. EvActiveSet k sess) ks) = map (\<lambda>k. EvActiveSet k sess) ks"
  by (induction ks) auto

lemma active_delete_reading:
  "confirmations (map EvActiveDelete ks) = []"
  "added (map EvActiveDelete ks) = []"
  "removed (map EvActiveDelete ks) = []"
  "active_writes (map EvActiveDelete ks) = map EvActiveDelete ks"
  by (induction ks) auto


lemmas trace_reading =
  reading_append add_events_reading remove_events_reading rejection_reading connected_reading
  active_set_reading active_delete_reading

lemma spec_status_simps:
  "ValidateToken h (Token p) = Inl e \<Longrightarrow> spec_confirmation_status h p = ''bad-token''"
  "ValidateToken h (Token p) = Inr vt \<Longrightarrow> capability_missing p vt \<Longrightarrow>
     spec_confirmation_status h p = ''bad-token-capability''"
  "ValidateToken h (Token p) = Inr vt \<Longrightarrow> \<not> capability_missing p vt \<Longrightarrow>
     spec_confirmation_status h p = ''connected''"
  by (auto simp: spec_confirmation_status_def capability_missing_def)

lemma not_missing: "(\<not> capability_missing p vt) = (Services p = [] \<or> HasCapability vt ''hzn:serve'')"
  by (auto simp: capability_missing_def)

lemma some_failed: "xs \<noteq> [] \<Longrightarrow> snd (last xs) = Some e \<Longrightarrow> \<exists>x \<in> set xs. snd x \<noteq> None"
  by (metis last_in_set option.distinct(1))

lemma failed_handshake_run:
  assumes fail: "handshake env h w = Return p' ds tr hh ww"
  shows "hh = h \<and> active_writes tr = []
     \<and> (\<exists>evs w'. handleConn env h w = Some (tr @ evs, h, w')
          \<and> confirmations evs = [] \<and> added evs = [] \<and> active_writes evs = []
          \<and> last evs = EvConnClose)"
proof (cases rule: handshake_cases [where env = env and h = h and w = w])
  case c: (ReaderErr e)
  from fail show ?thesis by (auto simp: hs_reader_err [OF c] hc_reader_err [OF c])
next
  case c: (ReadErr e)
  from fail show ?thesis by (auto simp: hs_read_err [OF c] hc_read_err [OF c])
next
  case c: (BadTag tag p)
  from fail show ?thesis by (auto simp: hs_bad_tag [OF c] hc_bad_tag [OF c])
next
  case c: (WriterErr p e)
  from fail show ?thesis by (auto simp: hs_writer_err [OF c] hc_writer_err [OF c])
next
  case c: (BadToken p e)
  from fail have tr: "tr = [EvFwRecycle, rejection env ''bad-token'']" and hh: "hh = h"
    by (simp_all add: hs_bad_token [OF c])
  have "\<exists>evs w'. handleConn env h w = Some (tr @ evs, h, w')
          \<and> confirmations evs = [] \<and> added evs = [] \<and> active_writes evs = []
          \<and> last evs = EvConnClose"
    by (intro exI [of _ "[EvFrRecycle, EvConnClose]"] exI [of _ w]) (simp add: hc_bad_token [OF c] tr)
  with hh tr show ?thesis by (simp add: trace_reading)
next
  case c: (BadCapability p vt)
  from fail have tr: "tr = [EvFwRecycle, rejection env ''bad-token-capability'']" and hh: "hh = h"
    by (simp_all add: hs_bad_capability [OF c])
  have "\<exists>evs w'. handleConn env h w = Some (tr @ evs, h, w')
          \<and> confirmations evs = [] \<and> added evs = [] \<and> active_writes evs = []
          \<and> last evs = EvConnClose"
    by (intro exI [of _ "[EvFrRecycle, EvConnClose]"] exI [of _ w]) (simp add: hc_bad_capability [OF c] tr)
  with hh tr show ?thesis by (simp add: trace_reading)
next
  case c: (RegistrationErr p vt e tr2 w2)
  from add_services_shape [OF c(6)] obtain xs where xs: "tr2 = [EvFwRecycle] @ add_events xs"
    by auto
  from fail have tr: "tr = tr2" and hh: "hh = h"
    by (simp_all add: hs_registration_err [OF c])
  have "\<exists>evs w'. handleConn env h w = Some (tr @ evs, h, w')
          \<and> confirmations evs = [] \<and> added evs = [] \<and> active_writes evs = []
          \<and> last evs = EvConnClose"
    by (intro exI [of _ "[EvFrRecycle, EvConnClose]"] exI [of _ w2]) (simp add: hc_registration_err [OF c] tr)
  with hh tr xs show ?thesis by (simp add: trace_reading)
next
  case c: (WriteErr p vt tr2 w2 e)
  from add_services_shape [OF c(6)] obtain xs where xs: "tr2 = [EvFwRecycle] @ add_events xs"
    by auto
  from fail have tr: "tr = tr2 @ [connected_write env]" and hh: "hh = h"
    by (simp_all add: hs_write_err [OF c])
  from hc_write_err [OF c] obtain ys w3 where
    hc: "handleConn env h w
           = Some (tr2 @ [connected_write env] @ remove_events ys @ [EvFrRecycle, EvConnClose], h, w3)"
    by blast
  have "\<exists>evs w'. handleConn env h w = Some (tr @ evs, h, w')
          \<and> confirmations evs = [] \<and> added evs = [] \<and> active_writes evs = []
          \<and> last evs = EvConnClose"
    by (intro exI [of _ "remove_events ys @ [EvFrRecycle, EvConnClose]"] exI [of _ w3])
       (simp add: hc tr trace_reading)
  with hh tr xs show ?thesis by (simp add: trace_reading)
next
  case c: (MuxErr p vt tr2 w2 e)
  from add_services_shape [OF c(6)] obtain xs where xs: "tr2 = [EvFwRecycle] @ add_events xs"
    by auto
  from fail have tr: "tr = tr2 @ [connected_write env, EvFwRecycle]" and hh: "hh = h"
    by (simp_all add: hs_mux_err [OF c])
  from hc_mux_err [OF c] obtain ys w3 where
    hc: "handleConn env h w
           = Some (tr2 @ [connected_write env, EvFwRecycle] @ remove_events ys @ [EvFrRecycle, EvConnClose],
                   h, w3)"
    by blast
  have "\<exists>evs w'. handleConn env h w = Some (tr @ evs, h, w')
          \<and> confirmations evs = [] \<and> added evs = [] \<and> active_writes evs = []
          \<and> last evs = EvConnClose"
    by (intro exI [of _ "remove_events ys @ [EvFrRecycle, EvConnClose]"] exI [of _ w3])
       (simp add: hc tr trace_reading)
  with hh tr xs show ?thesis by (simp add: trace_reading)
next
  case c: (Established p vt tr2 w2 sess)
  from fail show ?thesis by (simp add: hs_active [OF c])
qed

text \<open>The concrete inputs, evaluated.\<close>

lemmas demo_defs = demo_env_def demo_preamble_def demo_service_def demo_hub_def NewHub_def
  demo_client_def demo_check_def agent_token_def plain_token_def control_token_def

lemma demo_read: "ReadMarshal (demo_env tok ids) = Inr (1, demo_preamble tok ids)"
  "NewFramingReader (demo_env tok ids) = None" "NewFramingWriter (demo_env tok ids) = None"
  by (simp_all add: demo_env_def)

lemma demo_status:
  "spec_confirmation_status demo_hub (demo_preamble ''forged'' [''web'']) = ''bad-token''"
  "spec_confirmation_status demo_hub (demo_preamble ''plain'' [''web'']) = ''bad-token-capability''"
  "spec_confirmation_status demo_hub (demo_preamble ''plain'' []) = ''connected''"
  by (simp_all add: spec_confirmation_status_def demo_defs ValidateToken_def HasCapability_def)


lemma demo_full_pre:
  "NewFramingReader (demo_env ''agent'' [''web'', ''full'', ''db'']) = None"
  "ReadMarshal (demo_env ''agent'' [''web'', ''full'', ''db''])
     = Inr (1, demo_preamble ''agent'' [''web'', ''full'', ''db''])"
  "NewFramingWriter (demo_env ''agent'' [''web'', ''full'', ''db'']) = None"
  "ValidateToken demo_hub (Token (demo_preamble ''agent'' [''web'', ''full'', ''db''])) = Inr agent_token"
  "Services (demo_preamble ''agent'' [''web'', ''full'', ''db'']) = [] \<or> HasCapability agent_token ''hzn:serve''"
  by (simp_all add: demo_defs ValidateToken_def HasCapability_def)

lemma demo_full_added:
  "map (\<lambda>x. (Id (fst x), snd x))
     (added (hs_trace (handshake (demo_env ''agent'' [''web'', ''full'', ''db'']) demo_hub [])))
   = [(''web'', None), (''full'', Some (ErrOther ''rejected''))]"
  by (simp add: demo_defs handshake_def ValidateToken_def HasCapability_def Let_def service_request_of_def)

lemma demo_gone_run:
  "\<exists>tr h' w'. handleConn (demo_env ''agent'' [''gone'', ''web'']) demo_hub [] = Some (tr, h', w')
     \<and> map (\<lambda>x. (Id (fst x), snd x)) (added tr) = [(''gone'', None), (''web'', None)]
     \<and> map (\<lambda>x. (Id (fst x), snd x)) (removed tr)
         = [(''gone'', Some (ErrOther ''unreachable'')), (''web'', None)]"
  by (simp add: demo_defs handleConn_def handshake_def ValidateToken_def HasCapability_def
        new_confirmation_def Let_def service_keys_def service_request_of_def)

lemma demo_plain_fail:
  "handshake (demo_env ''plain'' [''web'']) demo_hub []
     = Return (demo_preamble ''plain'' [''web'']) [DFrRecycle, DConnClose]
         [EvFwRecycle, rejection (demo_env ''plain'' [''web'']) ''bad-token-capability''] demo_hub []"
  by (simp add: demo_defs handshake_def ValidateToken_def HasCapability_def Let_def rejection_def)

lemma busy_active:
  "handshake (demo_env ''agent'' [''web'']) busy_hub []
   = ActiveAt (demo_preamble ''agent'' [''web'']) agent_token 7
       [DActiveDelete, DSessClose 7, DRemoveServices agent_token, DFrRecycle, DConnClose]
       [EvFwRecycle,
        EvAddService (service_request_of busy_hub agent_token (demo_service ''web'')) None,
        connected_write (demo_env ''agent'' [''web'']), EvFwRecycle, EvActiveSet ''web'' 7]
       (busy_hub\<lparr>active := [''web'' \<mapsto> 7]\<rparr>) [''add web'']"
  by (simp add: busy_hub_def demo_defs handshake_def ValidateToken_def HasCapability_def Let_def
        service_request_of_def AccountNamespace_def AccountId_def connected_write_def service_keys_def)

lemma dup_active:
  "handshake (demo_env ''agent'' [''web'', ''web'']) demo_hub []
   = ActiveAt (demo_preamble ''agent'' [''web'', ''web'']) agent_token 7
       [DActiveDelete, DSessClose 7, DRemoveServices agent_token, DFrRecycle, DConnClose]
       [EvFwRecycle,
        EvAddService (service_request_of demo_hub agent_token (demo_service ''web'')) None,
        EvAddService (service_request_of demo_hub agent_token (demo_service ''web'')) None,
        connected_write (demo_env ''agent'' [''web'', ''web'']), EvFwRecycle,
        EvActiveSet ''web'' 7, EvActiveSet ''web'' 7]
       (demo_hub\<lparr>active := [''web'' \<mapsto> 7]\<rparr>) [''add web'', ''add web'']"
  by (simp add: demo_defs handshake_def ValidateToken_def HasCapability_def Let_def
        service_request_of_def AccountNamespace_def AccountId_def connected_write_def service_keys_def)

lemma demo_two_active:
  "handshake (demo_env ''agent'' [''gone'', ''web'']) demo_hub []
   = ActiveAt (demo_preamble ''agent'' [''gone'', ''web'']) agent_token 7
       [DActiveDelete, DSessClose 7, DRemoveServices agent_token, DFrRecycle, DConnClose]
       [EvFwRecycle,
        EvAddService (service_request_of demo_hub agent_token (demo_service ''gone'')) None,
        EvAddService (service_request_of demo_hub agent_token (demo_service ''web'')) None,
        connected_write (demo_env ''agent'' [''gone'', ''web'']), EvFwRecycle,
        EvActiveSet ''gone'' 7, EvActiveSet ''web'' 7]
       (demo_hub\<lparr>active := [''gone'' \<mapsto> 7, ''web'' \<mapsto> 7]\<rparr>) [''add gone'', ''add web'']"
  by (simp add: demo_defs handshake_def ValidateToken_def HasCapability_def Let_def
        service_request_of_def AccountNamespace_def AccountId_def connected_write_def service_keys_def)

lemma demo_two_keys:
  "service_keys (demo_env ''agent'' [''gone'', ''web'']) (demo_preamble ''agent'' [''gone'', ''web''])
     = [''gone'', ''web'']"
  by (simp add: service_keys_def demo_env_def demo_preamble_def demo_service_def)

section \<open>The handshake and the teardown of a connection\<close>



text \<open>
  Claim C2, as amended. For every successful handshake, immediately after the session
  becomes Active every advertised service key maps to that connection's session and no
  other key of the map has changed; the keys added are the advertised keys that were not
  in the map before, exactly N of them when the N advertised keys are distinct and none was
  in the map; the connection closes exactly when \<^verbatim>\<open>AcceptStream\<close> returns an error, and
  after it has closed none of the advertised keys is in the map, the other keys are as
  they were before the handshake, and a session that was not in the map before is not in
  it after. A handshake that fails writes nothing to the map.
\<close>

theorem active_map_bookkeeping:
  "(\<forall>p vt sess ds tr hh ww. handshake env h w = ActiveAt p vt sess ds tr hh ww \<longrightarrow>
       (\<forall>k \<in> set (service_keys env p). active hh k = Some sess)
     \<and> (\<forall>k. k \<notin> set (service_keys env p) \<longrightarrow> active hh k = active h k)
     \<and> card (dom (active hh) - dom (active h)) = card (set (service_keys env p) - dom (active h))
     \<and> (distinct (service_keys env p) \<and> set (service_keys env p) \<inter> dom (active h) = {}
          \<longrightarrow> card (dom (active hh) - dom (active h)) = length (Services p))
     \<and> active_writes tr = map (\<lambda>k. EvActiveSet k sess) (service_keys env p)
     \<and> ((handleConn env h w = None) = (\<forall>err. AcceptErr err \<notin> set (AcceptStream env)))
     \<and> (\<forall>tr' h' w'. handleConn env h w = Some (tr', h', w') \<longrightarrow>
           (\<forall>k \<in> set (service_keys env p). active h' k = None)
         \<and> (\<forall>k. k \<notin> set (service_keys env p) \<longrightarrow> active h' k = active h k)
         \<and> active_writes tr' = map (\<lambda>k. EvActiveSet k sess) (service_keys env p)
                                 @ map EvActiveDelete (service_keys env p)
         \<and> (sess \<notin> ran (active h) \<longrightarrow> sess \<notin> ran (active h'))))
   \<and> (\<forall>p ds tr hh ww. handshake env h w = Return p ds tr hh ww \<longrightarrow>
         hh = h \<and> active_writes tr = []
       \<and> (\<exists>tr' w'. handleConn env h w = Some (tr', h, w') \<and> active_writes tr' = []))"
proof (intro conjI allI impI)
  fix p ds tr hh ww
  assume fail: "handshake env h w = Return p ds tr hh ww"
  from failed_handshake_run [OF fail] show "hh = h" "active_writes tr = []" by simp_all
  from failed_handshake_run [OF fail] obtain evs w' where
    "handleConn env h w = Some (tr @ evs, h, w')" "active_writes evs = []" "active_writes tr = []"
    by blast
  then show "\<exists>tr' w'. handleConn env h w = Some (tr', h, w') \<and> active_writes tr' = []"
    by (intro exI [of _ "tr @ evs"] exI [of _ w']) (simp add: trace_reading)
next
  fix p vt sess ds tr hh ww
  assume act: "handshake env h w = ActiveAt p vt sess ds tr hh ww"
  have est: "\<exists>tr2 w2. NewFramingReader env = None \<and> ReadMarshal env = Inr (1, p)
      \<and> NewFramingWriter env = None \<and> ValidateToken h (Token p) = Inr vt \<and> \<not> capability_missing p vt
      \<and> add_services h vt (Services p) [EvFwRecycle] w = (None, tr2, w2)
      \<and> WriteMarshal env 1 (new_confirmation env) = None \<and> yamux_Server env = Inr sess"
  proof (cases rule: handshake_cases [where env = env and h = h and w = w])
    case c: (ReaderErr e)
    from act show ?thesis by (simp add: hs_reader_err [OF c])
  next
    case c: (ReadErr e)
    from act show ?thesis by (simp add: hs_read_err [OF c])
  next
    case c: (BadTag tag p)
    from act show ?thesis by (simp add: hs_bad_tag [OF c])
  next
    case c: (WriterErr p e)
    from act show ?thesis by (simp add: hs_writer_err [OF c])
  next
    case c: (BadToken p e)
    from act show ?thesis by (simp add: hs_bad_token [OF c])
  next
    case c: (BadCapability p vt)
    from act show ?thesis by (simp add: hs_bad_capability [OF c])
  next
    case c: (RegistrationErr p vt e tr2 w2)
    from act show ?thesis by (simp add: hs_registration_err [OF c])
  next
    case c: (WriteErr p vt tr2 w2 e)
    from act show ?thesis by (simp add: hs_write_err [OF c])
  next
    case c: (MuxErr p vt tr2 w2 e)
    from act show ?thesis by (simp add: hs_mux_err [OF c])
  next
    case c: (Established p0 vt0 tr2 w2 sess0)
    from act have "p0 = p" "vt0 = vt" "sess0 = sess" by (simp_all add: hs_active [OF c])
    with c show ?thesis by blast
  qed
  then obtain tr2 w2 where c: "NewFramingReader env = None" "ReadMarshal env = Inr (1, p)"
      "NewFramingWriter env = None" "ValidateToken h (Token p) = Inr vt" "\<not> capability_missing p vt"
      "add_services h vt (Services p) [EvFwRecycle] w = (None, tr2, w2)"
      "WriteMarshal env 1 (new_confirmation env) = None" "yamux_Server env = Inr sess"
    by blast
  from add_services_shape [OF c(6)] obtain xs where xs: "tr2 = [EvFwRecycle] @ add_events xs"
    by auto
  from act have hh: "hh = h\<lparr>active := active_insert env sess (Services p) (active h)\<rparr>"
    and tr: "tr = tr2 @ [connected_write env, EvFwRecycle]
                @ map (\<lambda>k. EvActiveSet k sess) (service_keys env p)"
    by (simp_all add: hs_active [OF c])
  have app: "active hh k = (if k \<in> set (service_keys env p) then Some sess else active h k)" for k
    by (simp add: hh active_insert_apply service_keys_def)
  show "\<forall>k \<in> set (service_keys env p). active hh k = Some sess" by (simp add: app)
  show "active hh k = active h k" if "k \<notin> set (service_keys env p)" for k
    using that by (simp add: app)
  have dom: "dom (active hh) - dom (active h) = set (service_keys env p) - dom (active h)"
    by (auto simp: dom_def app split: if_splits)
  show card: "card (dom (active hh) - dom (active h)) = card (set (service_keys env p) - dom (active h))"
    by (simp add: dom)
  show "card (dom (active hh) - dom (active h)) = length (Services p)"
    if "distinct (service_keys env p) \<and> set (service_keys env p) \<inter> dom (active h) = {}"
  proof -
    from that have "set (service_keys env p) - dom (active h) = set (service_keys env p)" by auto
    moreover from that have "card (set (service_keys env p)) = length (service_keys env p)"
      by (simp add: distinct_card)
    moreover have "length (service_keys env p) = length (Services p)"
      by (simp add: service_keys_def)
    ultimately show ?thesis using card by simp
  qed
  show "active_writes tr = map (\<lambda>k. EvActiveSet k sess) (service_keys env p)"
    by (simp add: tr xs trace_reading)
  show "(handleConn env h w = None) = (\<forall>err. AcceptErr err \<notin> set (AcceptStream env))"
    by (rule hc_established_returns [OF c])
  fix tr' h' w'
  assume run: "handleConn env h w = Some (tr', h', w')"
  from hc_established [OF c run] obtain evs ys where
    fin: "tr' = tr2 @ [connected_write env, EvFwRecycle]
                  @ map (\<lambda>k. EvActiveSet k sess) (service_keys env p)
                  @ evs
                  @ map EvActiveDelete (service_keys env p) @ [EvSessClose sess]
                  @ remove_events ys @ [EvFrRecycle, EvConnClose]"
      "list_all is_stream_event evs"
      "h' = h\<lparr>active := active_delete env (Services p)
                              (active_insert env sess (Services p) (active h))\<rparr>"
    by blast
  have app': "active h' k = (if k \<in> set (service_keys env p) then None else active h k)" for k
    by (simp add: fin(3) active_delete_apply active_insert_apply service_keys_def)
  show "\<forall>k \<in> set (service_keys env p). active h' k = None" by (simp add: app')
  show "active h' k = active h k" if "k \<notin> set (service_keys env p)" for k
    using that by (simp add: app')
  show "active_writes tr' = map (\<lambda>k. EvActiveSet k sess) (service_keys env p)
                                 @ map EvActiveDelete (service_keys env p)"
    by (simp add: fin(1) xs trace_reading stream_events_reading [OF fin(2)])
  show "sess \<notin> ran (active h')" if "sess \<notin> ran (active h)"
    using that by (auto simp: ran_def app' split: if_splits)
qed

text \<open>
  The claim as first stated has exactly N new entries after every successful handshake.
  On the hub where \<^verbatim>\<open>web\<close> is already served, a handshake advertising \<^verbatim>\<open>web\<close> adds no
  entry (it overwrites one); and a Preamble that advertises \<^verbatim>\<open>web\<close> twice adds one entry,
  not two.
\<close>

theorem active_entries_count_counterexample:
  "is_active (handshake (demo_env ''agent'' [''web'']) busy_hub [])
   \<and> length (Services (demo_preamble ''agent'' [''web''])) = 1
   \<and> card (dom (active (hs_hub (handshake (demo_env ''agent'' [''web'']) busy_hub [])))
            - dom (active busy_hub)) = 0
   \<and> is_active (handshake (demo_env ''agent'' [''web'', ''web'']) demo_hub [])
   \<and> length (Services (demo_preamble ''agent'' [''web'', ''web''])) = 2
   \<and> card (dom (active (hs_hub (handshake (demo_env ''agent'' [''web'', ''web'']) demo_hub [])))
            - dom (active demo_hub)) = 1"
  by (simp add: busy_active dup_active) (simp add: busy_hub_def demo_hub_def NewHub_def demo_preamble_def)

theorem active_map_bookkeeping_witness:
  "card (dom [''gone'' \<mapsto> 7::nat, ''web'' \<mapsto> 7] - dom (active demo_hub)) = 2
   \<and> [''gone'' \<mapsto> 7::nat, ''web'' \<mapsto> 7] ''gone'' = Some 7
   \<and> [''gone'' \<mapsto> 7::nat, ''web'' \<mapsto> 7] ''web'' = Some 7
   \<and> handleConn (demo_env ''agent'' [''gone'', ''web'']) demo_hub [] \<noteq> None
   \<and> active (fst (snd (the (handleConn (demo_env ''agent'' [''gone'', ''web'']) demo_hub [])))) ''gone'' = None
   \<and> active (fst (snd (the (handleConn (demo_env ''agent'' [''gone'', ''web'']) demo_hub [])))) ''web'' = None"
proof -
  note t = active_map_bookkeeping [of "demo_env ''agent'' [''gone'', ''web'']" demo_hub "[]"]
  have dom0: "dom (active demo_hub) = {}" by (simp add: demo_hub_def NewHub_def)
  have acc: "\<exists>err. AcceptErr err \<in> set (AcceptStream (demo_env ''agent'' [''gone'', ''web'']))"
    by (simp add: demo_env_def)
  from t demo_two_active acc have ret: "handleConn (demo_env ''agent'' [''gone'', ''web'']) demo_hub [] \<noteq> None"
    by (simp add: demo_two_keys dom0)
  then obtain tr' h' w' where
    run: "handleConn (demo_env ''agent'' [''gone'', ''web'']) demo_hub [] = Some (tr', h', w')"
    by auto
  from t demo_two_active run have "active h' ''gone'' = None" "active h' ''web'' = None"
    by (simp_all add: demo_two_keys)
  with t demo_two_active ret run show ?thesis
    by (simp add: demo_two_keys dom0)
qed

text \<open>
  Claim C3, as amended. For every teardown of a connection whose registrations all
  succeeded, a \<^verbatim>\<open>RemoveService\<close> call is made for every service that was registered, with
  the request that registered it and in the Preamble's order, whatever the earlier
  \<^verbatim>\<open>RemoveService\<close> calls of the same teardown returned: the theorem puts no condition on
  their results.
\<close>

theorem deregistration_attempts_every_service:
  assumes run: "handleConn env h w = Some (tr, h', w')"
    and reg: "\<forall>x \<in> set (added tr). snd x = None"
  shows "map fst (removed tr) = map fst (added tr)
     \<and> (\<forall>tag p vt. ReadMarshal env = Inr (tag, p) \<and> ValidateToken h (Token p) = Inr vt \<and> added tr \<noteq> []
          \<longrightarrow> map fst (removed tr) = map (service_request_of h vt) (Services p))"
proof (cases rule: handshake_cases [where env = env and h = h and w = w])
  case (ReaderErr e)
  with run show ?thesis by (auto simp: hc_reader_err)
next
  case (ReadErr e)
  with run show ?thesis by (auto simp: hc_read_err)
next
  case (BadTag tag p)
  with run show ?thesis by (auto simp: hc_bad_tag)
next
  case (WriterErr p e)
  with run show ?thesis by (auto simp: hc_writer_err)
next
  case (BadToken p e)
  from run show ?thesis by (auto simp: hc_bad_token [OF BadToken] trace_reading)
next
  case (BadCapability p vt)
  from run show ?thesis by (auto simp: hc_bad_capability [OF BadCapability] trace_reading)
next
  case (RegistrationErr p vt e tr2 w2)
  from add_services_shape [OF RegistrationErr(6)] obtain xs where
    xs: "tr2 = [EvFwRecycle] @ add_events xs" "xs \<noteq> []" "snd (last xs) = Some e"
    by auto
  from run have "added tr = xs"
    by (auto simp: hc_registration_err [OF RegistrationErr] xs(1) trace_reading)
  with reg some_failed [OF xs(2,3)] show ?thesis by auto
next
  case (WriteErr p vt tr2 w2 e)
  from add_services_shape [OF WriteErr(6)] obtain xs where
    xs: "tr2 = [EvFwRecycle] @ add_events xs"
      "map fst xs = map (service_request_of h vt) (take (length xs) (Services p))"
      "length xs = length (Services p)"
    by auto
  from hc_write_err [OF WriteErr] run obtain ys where
    "tr = tr2 @ [connected_write env] @ remove_events ys @ [EvFrRecycle, EvConnClose]"
    "map fst ys = map (service_request_of h vt) (Services p)"
    by auto
  with xs WriteErr(2,4) show ?thesis by (auto simp: trace_reading)
next
  case (MuxErr p vt tr2 w2 e)
  from add_services_shape [OF MuxErr(6)] obtain xs where
    xs: "tr2 = [EvFwRecycle] @ add_events xs"
      "map fst xs = map (service_request_of h vt) (take (length xs) (Services p))"
      "length xs = length (Services p)"
    by auto
  from hc_mux_err [OF MuxErr] run obtain ys where
    "tr = tr2 @ [connected_write env, EvFwRecycle] @ remove_events ys @ [EvFrRecycle, EvConnClose]"
    "map fst ys = map (service_request_of h vt) (Services p)"
    by auto
  with xs MuxErr(2,4) show ?thesis by (auto simp: trace_reading)
next
  case (Established p vt tr2 w2 sess)
  from add_services_shape [OF Established(6)] obtain xs where
    xs: "tr2 = [EvFwRecycle] @ add_events xs"
      "map fst xs = map (service_request_of h vt) (take (length xs) (Services p))"
      "length xs = length (Services p)"
    by auto
  from hc_established [OF Established run] obtain evs ys where
    "tr = tr2 @ [connected_write env, EvFwRecycle]
                  @ map (\<lambda>k. EvActiveSet k sess) (service_keys env p)
                  @ evs
                  @ map EvActiveDelete (service_keys env p) @ [EvSessClose sess]
                  @ remove_events ys @ [EvFrRecycle, EvConnClose]"
    "list_all is_stream_event evs"
    "map fst ys = map (service_request_of h vt) (Services p)"
    by blast
  with xs Established(2,4) show ?thesis by (auto simp: trace_reading stream_events_reading)
qed

text \<open>
  The claim as first stated covers every service registered during the handshake. Here
  the first service is registered, the registration of the second fails, and the
  connection is torn down with no \<^verbatim>\<open>RemoveService\<close> call: the deferred deregistration is
  only set up once the registration loop has completed.
\<close>

theorem partial_registration_not_deregistered_counterexample:
  "handleConn (demo_env ''agent'' [''web'', ''full'', ''db'']) demo_hub []
     = Some ([EvFwRecycle,
              EvAddService (service_request_of demo_hub agent_token (demo_service ''web'')) None,
              EvAddService (service_request_of demo_hub agent_token (demo_service ''full''))
                (Some (ErrOther ''rejected'')),
              EvFrRecycle, EvConnClose],
             demo_hub, [''add web'', ''add full''])
   \<and> added [EvFwRecycle,
              EvAddService (service_request_of demo_hub agent_token (demo_service ''web'')) None,
              EvAddService (service_request_of demo_hub agent_token (demo_service ''full''))
                (Some (ErrOther ''rejected'')),
              EvFrRecycle, EvConnClose]
       = [(service_request_of demo_hub agent_token (demo_service ''web''), None),
          (service_request_of demo_hub agent_token (demo_service ''full''), Some (ErrOther ''rejected''))]
   \<and> removed [EvFwRecycle,
              EvAddService (service_request_of demo_hub agent_token (demo_service ''web'')) None,
              EvAddService (service_request_of demo_hub agent_token (demo_service ''full''))
                (Some (ErrOther ''rejected'')),
              EvFrRecycle, EvConnClose] = []"
  by (simp add: demo_defs handleConn_def handshake_def ValidateToken_def HasCapability_def Let_def
        service_request_of_def AccountNamespace_def AccountId_def)

theorem deregistration_attempts_every_service_witness:
  "\<exists>tr h' w'. handleConn (demo_env ''agent'' [''gone'', ''web'']) demo_hub [] = Some (tr, h', w')
     \<and> map (\<lambda>x. (Id (fst x), snd x)) (removed tr)
         = [(''gone'', Some (ErrOther ''unreachable'')), (''web'', None)]
     \<and> map fst (removed tr) = map fst (added tr)"
proof -
  from demo_gone_run obtain tr h' w' where
    run: "handleConn (demo_env ''agent'' [''gone'', ''web'']) demo_hub [] = Some (tr, h', w')"
    and ad: "map (\<lambda>x. (Id (fst x), snd x)) (added tr) = [(''gone'', None), (''web'', None)]"
    and rm: "map (\<lambda>x. (Id (fst x), snd x)) (removed tr)
         = [(''gone'', Some (ErrOther ''unreachable'')), (''web'', None)]"
    by auto
  from ad have "map snd (added tr) = [None, None]"
    by (auto simp: map_eq_Cons_conv)
  then have "set (map snd (added tr)) = {None}" by simp
  then have ok: "\<forall>x \<in> set (added tr). snd x = None" by auto
  from deregistration_attempts_every_service [OF run ok]
  have "map fst (removed tr) = map fst (added tr)" by simp
  with run rm show ?thesis by simp
qed

text \<open>
  Claim C6, as amended. For every inbound connection whose handshake fails: when the
  failure is a rejected token or a missing capability, the peer is sent exactly one
  Confirmation, with that status, which is not \<^verbatim>\<open>"connected"\<close>; the connection is closed
  with no Confirmation written exactly when the framing reader or writer could not be
  constructed, the first frame was malformed or had a tag other than 1, or a registration
  failed; a failure after the registrations (the Confirmation could not be written, or the
  multiplexer could not be set up) comes after the \<^verbatim>\<open>"connected"\<close> Confirmation was
  handed to the writer; and in every case nothing more is written before the connection
  is closed.
\<close>

theorem handshake_failure_observed:
  assumes fail: "handshake env h w = Return p' ds tr hh ww"
  shows "(\<forall>p. NewFramingReader env = None \<and> ReadMarshal env = Inr (1, p) \<and> NewFramingWriter env = None
            \<and> spec_confirmation_status h p \<noteq> ''connected''
          \<longrightarrow> map Status (confirmations tr) = [spec_confirmation_status h p])
     \<and> ((confirmations tr = []) =
          (NewFramingReader env \<noteq> None \<or> (\<exists>e. ReadMarshal env = Inl e)
           \<or> (\<exists>tag p. ReadMarshal env = Inr (tag, p) \<and> tag \<noteq> 1)
           \<or> NewFramingWriter env \<noteq> None
           \<or> (\<exists>x \<in> set (added tr). snd x \<noteq> None)))
     \<and> (\<forall>c \<in> set (confirmations tr). Status c = ''connected''
          \<longrightarrow> WriteMarshal env 1 c \<noteq> None \<or> (\<exists>e. yamux_Server env = Inl e))
     \<and> (\<exists>evs w'. handleConn env h w = Some (tr @ evs, h, w')
          \<and> confirmations evs = [] \<and> last evs = EvConnClose)"
proof (cases rule: handshake_cases [where env = env and h = h and w = w])
  case (ReaderErr e)
  from fail show ?thesis using ReaderErr
    by (auto simp: hs_reader_err [OF ReaderErr] hc_reader_err [OF ReaderErr])
next
  case (ReadErr e)
  from fail show ?thesis using ReadErr by (auto simp: hs_read_err [OF ReadErr] hc_read_err [OF ReadErr])
next
  case (BadTag tag p)
  from fail show ?thesis using BadTag by (auto simp: hs_bad_tag [OF BadTag] hc_bad_tag [OF BadTag])
next
  case (WriterErr p e)
  from fail show ?thesis using WriterErr
    by (auto simp: hs_writer_err [OF WriterErr] hc_writer_err [OF WriterErr])
next
  case c: (BadToken p e)
  from fail have tr: "tr = [EvFwRecycle, rejection env ''bad-token'']" by (simp add: hs_bad_token [OF c])
  show ?thesis
    unfolding tr using c(1-3)
    by (auto simp: hc_bad_token [OF c] trace_reading spec_status_simps(1) [OF c(4)])
next
  case c: (BadCapability p vt)
  from fail have tr: "tr = [EvFwRecycle, rejection env ''bad-token-capability'']"
    by (simp add: hs_bad_capability [OF c])
  show ?thesis
    unfolding tr using c(1-3)
    by (auto simp: hc_bad_capability [OF c] trace_reading spec_status_simps(2) [OF c(4,5)])
next
  case c: (RegistrationErr p vt e tr2 w2)
  from add_services_shape [OF c(6)] obtain xs where
    xs: "tr2 = [EvFwRecycle] @ add_events xs" "xs \<noteq> []" "snd (last xs) = Some e"
    by auto
  from fail have tr: "tr = EvFwRecycle # add_events xs" by (simp add: hs_registration_err [OF c] xs(1))
  show ?thesis
    unfolding tr using c(1-3) some_failed [OF xs(2,3)]
    by (auto simp: hc_registration_err [OF c] xs(1) trace_reading spec_status_simps(3) [OF c(4,5)])
next
  case c: (WriteErr p vt tr2 w2 e)
  from add_services_shape [OF c(6)] obtain xs where
    xs: "tr2 = [EvFwRecycle] @ add_events xs" "\<forall>x \<in> set xs. snd x = None"
    by auto
  from fail have tr: "tr = EvFwRecycle # add_events xs @ [connected_write env]"
    by (simp add: hs_write_err [OF c] xs(1))
  from hc_write_err [OF c] obtain ys w3 where
    hc: "handleConn env h w
           = Some (tr2 @ [connected_write env] @ remove_events ys @ [EvFrRecycle, EvConnClose], h, w3)"
    by blast
  have fin: "\<exists>evs w'. handleConn env h w = Some (tr @ evs, h, w')
          \<and> confirmations evs = [] \<and> last evs = EvConnClose"
    by (intro exI [of _ "remove_events ys @ [EvFrRecycle, EvConnClose]"] exI [of _ w3])
       (simp add: hc tr xs(1) trace_reading)
  show ?thesis
    unfolding tr using c(1-3,7) xs(2) fin [unfolded tr]
    by (auto simp: trace_reading spec_status_simps(3) [OF c(4,5)])
next
  case c: (MuxErr p vt tr2 w2 e)
  from add_services_shape [OF c(6)] obtain xs where
    xs: "tr2 = [EvFwRecycle] @ add_events xs" "\<forall>x \<in> set xs. snd x = None"
    by auto
  from fail have tr: "tr = EvFwRecycle # add_events xs @ [connected_write env, EvFwRecycle]"
    by (simp add: hs_mux_err [OF c] xs(1))
  from hc_mux_err [OF c] obtain ys w3 where
    hc: "handleConn env h w
           = Some (tr2 @ [connected_write env, EvFwRecycle] @ remove_events ys @ [EvFrRecycle, EvConnClose],
                   h, w3)"
    by blast
  have fin: "\<exists>evs w'. handleConn env h w = Some (tr @ evs, h, w')
          \<and> confirmations evs = [] \<and> last evs = EvConnClose"
    by (intro exI [of _ "remove_events ys @ [EvFrRecycle, EvConnClose]"] exI [of _ w3])
       (simp add: hc tr xs(1) trace_reading)
  show ?thesis
    unfolding tr using c(1-3,8) xs(2) fin [unfolded tr]
    by (auto simp: trace_reading spec_status_simps(3) [OF c(4,5)])
next
  case c: (Established p vt tr2 w2 sess)
  from fail show ?thesis by (simp add: hs_active [OF c])
qed

text \<open>
  The claim as first stated leaves only protocol errors without a Confirmation. Here the
  frame is well formed with tag 1 and the token is valid with the capability; the
  registration of the second service fails, and the connection is closed with no
  Confirmation written.
\<close>

theorem registration_failure_unconfirmed_counterexample:
  "ReadMarshal (demo_env ''agent'' [''web'', ''full'', ''db''])
     = Inr (1, demo_preamble ''agent'' [''web'', ''full'', ''db''])
   \<and> \<not> is_active (handshake (demo_env ''agent'' [''web'', ''full'', ''db'']) demo_hub [])
   \<and> handleConn (demo_env ''agent'' [''web'', ''full'', ''db'']) demo_hub []
       = Some ([EvFwRecycle,
                EvAddService (service_request_of demo_hub agent_token (demo_service ''web'')) None,
                EvAddService (service_request_of demo_hub agent_token (demo_service ''full''))
                  (Some (ErrOther ''rejected'')),
                EvFrRecycle, EvConnClose],
               demo_hub, [''add web'', ''add full''])
   \<and> confirmations [EvFwRecycle,
                EvAddService (service_request_of demo_hub agent_token (demo_service ''web'')) None,
                EvAddService (service_request_of demo_hub agent_token (demo_service ''full''))
                  (Some (ErrOther ''rejected'')),
                EvFrRecycle, EvConnClose] = []"
  by (simp add: demo_defs handleConn_def handshake_def ValidateToken_def HasCapability_def Let_def
        service_request_of_def AccountNamespace_def AccountId_def)

theorem handshake_failure_observed_witness:
  "handshake (demo_env ''plain'' [''web'']) demo_hub []
     = Return (demo_preamble ''plain'' [''web'']) [DFrRecycle, DConnClose]
         [EvFwRecycle, rejection (demo_env ''plain'' [''web'']) ''bad-token-capability''] demo_hub []
   \<and> map Status (confirmations
         [EvFwRecycle, rejection (demo_env ''plain'' [''web'']) ''bad-token-capability''])
       = [''bad-token-capability'']
   \<and> (\<exists>evs w'. handleConn (demo_env ''plain'' [''web'']) demo_hub []
         = Some ([EvFwRecycle, rejection (demo_env ''plain'' [''web'']) ''bad-token-capability''] @ evs,
                 demo_hub, w')
       \<and> confirmations evs = [] \<and> last evs = EvConnClose)"
  using handshake_failure_observed [OF demo_plain_fail] demo_plain_fail
  by (simp add: demo_read demo_status)

text \<open>
  Claim C7. For every handshake that reaches the registration of its services, the
  \<^verbatim>\<open>AddService\<close> calls are made for a prefix of the Preamble's services, in the Preamble's
  order, and every call but the last succeeded; with no error the prefix is the whole
  list; on an error no further call is made (none is repeated), the handshake returns
  without a Confirmation and without becoming Active, the hub is as it was, and the only
  events after the failed call are the release of the framing reader and the close of the
  connection.
\<close>

theorem registration_stops_at_first_error:
  assumes "NewFramingReader env = None" "ReadMarshal env = Inr (1, p)" "NewFramingWriter env = None"
    "ValidateToken h (Token p) = Inr vt" "Services p = [] \<or> HasCapability vt ''hzn:serve''"
  shows "map fst (added (hs_trace (handshake env h w)))
           = map (service_request_of h vt) (take (length (added (hs_trace (handshake env h w)))) (Services p))
     \<and> (\<forall>x \<in> set (butlast (added (hs_trace (handshake env h w)))). snd x = None)
     \<and> ((\<forall>x \<in> set (added (hs_trace (handshake env h w))). snd x = None)
          \<longrightarrow> length (added (hs_trace (handshake env h w))) = length (Services p))
     \<and> ((\<exists>x \<in> set (added (hs_trace (handshake env h w))). snd x \<noteq> None)
          \<longrightarrow> (\<exists>w'. handshake env h w
                     = Return p [DFrRecycle, DConnClose]
                         (EvFwRecycle # add_events (added (hs_trace (handshake env h w)))) h w'
                 \<and> handleConn env h w
                     = Some (EvFwRecycle # add_events (added (hs_trace (handshake env h w)))
                               @ [EvFrRecycle, EvConnClose], h, w')))"
proof -
  note pre = assms(1-4) assms(5) [folded not_missing]
  obtain r tr2 w2 where reg: "add_services h vt (Services p) [EvFwRecycle] w = (r, tr2, w2)"
    by (cases "add_services h vt (Services p) [EvFwRecycle] w")
  from add_services_shape [OF reg] obtain xs where
    xs: "tr2 = [EvFwRecycle] @ add_events xs"
      "map fst xs = map (service_request_of h vt) (take (length xs) (Services p))"
      "\<forall>x \<in> set (butlast xs). snd x = None"
      "case r of None \<Rightarrow> length xs = length (Services p) \<and> (\<forall>x \<in> set xs. snd x = None)
                | Some e \<Rightarrow> xs \<noteq> [] \<and> snd (last xs) = Some e"
    by blast
  show ?thesis
  proof (cases r)
    case (Some e)
    with reg have reg': "add_services h vt (Services p) [EvFwRecycle] w = (Some e, tr2, w2)" by simp
    have hs: "handshake env h w = Return p [DFrRecycle, DConnClose] tr2 h w2"
      by (rule hs_registration_err [OF pre reg'])
    have hc: "handleConn env h w = Some (tr2 @ [EvFrRecycle, EvConnClose], h, w2)"
      by (rule hc_registration_err [OF pre reg'])
    have ad: "added (hs_trace (handshake env h w)) = xs"
      by (simp add: hs xs(1) trace_reading)
    from xs(4) Some have "xs \<noteq> []" "snd (last xs) = Some e" by simp_all
    then have "\<exists>x \<in> set xs. snd x \<noteq> None"
      by (metis last_in_set option.distinct(1))
    then have nall: "(\<forall>x \<in> set xs. snd x = None) \<longrightarrow> length xs = length (Services p)"
      by auto
    show ?thesis
      unfolding ad using xs(2,3) nall hs hc xs(1) by auto
  next
    case None
    with xs(4) have all: "length xs = length (Services p)" "\<forall>x \<in> set xs. snd x = None" by simp_all
    from reg None have reg': "add_services h vt (Services p) [EvFwRecycle] w = (None, tr2, w2)" by simp
    have ad: "added (hs_trace (handshake env h w)) = xs"
    proof (cases "WriteMarshal env 1 (new_confirmation env)")
      case (Some e)
      show ?thesis by (simp add: hs_write_err [OF pre reg' Some] xs(1) trace_reading)
    next
      case wr: None
      show ?thesis
      proof (cases "yamux_Server env")
        case (Inl e)
        show ?thesis by (simp add: hs_mux_err [OF pre reg' wr Inl] xs(1) trace_reading)
      next
        case (Inr sess)
        show ?thesis by (simp add: hs_active [OF pre reg' wr Inr] xs(1) trace_reading)
      qed
    qed
    show ?thesis
      unfolding ad using xs(2,3) all by auto
  qed
qed

theorem registration_stops_at_first_error_witness:
  "map (\<lambda>x. (Id (fst x), snd x))
     (added (hs_trace (handshake (demo_env ''agent'' [''web'', ''full'', ''db'']) demo_hub [])))
     = [(''web'', None), (''full'', Some (ErrOther ''rejected''))]
   \<and> (\<exists>w'. handleConn (demo_env ''agent'' [''web'', ''full'', ''db'']) demo_hub []
         = Some (EvFwRecycle
                  # add_events (added (hs_trace (handshake (demo_env ''agent'' [''web'', ''full'', ''db'']) demo_hub [])))
                  @ [EvFrRecycle, EvConnClose], demo_hub, w'))"
proof -
  have "\<exists>x \<in> set (added (hs_trace (handshake (demo_env ''agent'' [''web'', ''full'', ''db'']) demo_hub []))).
          snd x \<noteq> None"
    by (simp add: demo_defs handshake_def ValidateToken_def HasCapability_def Let_def service_request_of_def)
  with registration_stops_at_first_error [OF demo_full_pre, of "[]"] demo_full_added
  show ?thesis by blast
qed

section \<open>The connection pool, concurrent callers\<close>

lemma read_locks_update:
  "i < length cs \<Longrightarrow>
     read_locks (cs[i := x]) + (if reading (snd (cs ! i)) then 1 else 0)
       = read_locks cs + (if reading (snd x) then 1 else 0)"
proof (induction cs arbitrary: i)
  case Nil
  then show ?case by simp
next
  case (Cons c cs)
  show ?case
  proof (cases i)
    case 0
    then show ?thesis by (simp add: read_locks_def)
  next
    case (Suc k)
    with Cons.prems have "k < length cs" by simp
    from Cons.IH [OF this] Suc show ?thesis by (simp add: read_locks_def)
  qed
qed

lemma read_locks_pos: "i < length cs \<Longrightarrow> reading (snd (cs ! i)) \<Longrightarrow> 0 < read_locks cs"
proof (induction cs arbitrary: i)
  case Nil
  then show ?case by simp
next
  case (Cons c cs)
  then show ?case by (cases i) (auto simp: read_locks_def)
qed

lemma read_locks_zero: "read_locks cs = 0 \<Longrightarrow> i < length cs \<Longrightarrow> \<not> reading (snd (cs ! i))"
  using read_locks_pos by fastforce

lemma read_locks_some: "0 < read_locks cs \<Longrightarrow> \<exists>i < length cs. reading (snd (cs ! i))"
proof (induction cs)
  case Nil
  then show ?case by (simp add: read_locks_def)
next
  case (Cons c cs)
  show ?case
  proof (cases "reading (snd c)")
    case True
    then show ?thesis by (intro exI [of _ 0]) simp
  next
    case False
    with Cons.prems have "0 < read_locks cs" by (simp add: read_locks_def)
    from Cons.IH [OF this] obtain i where "i < length cs" "reading (snd (cs ! i))" by blast
    then show ?thesis by (intro exI [of _ "Suc i"]) simp
  qed
qed

lemma reading_not_writing: "reading pc \<Longrightarrow> \<not> writing pc"
  by (cases pc) auto

lemma lock_inv_move:
  assumes inv: "lock_inv s" and i: "i < length (callers s)" and pc: "snd (callers s ! i) = pc"
    and cs: "callers s' = (callers s)[i := (fst (callers s ! i), pc')]"
    and rd: "readers s' + (if reading pc then 1 else 0) = readers s + (if reading pc' then 1 else 0)"
    and wr: "writer s' = (if writing pc' then True else if writing pc then False else writer s)"
    and g1: "writing pc' \<and> \<not> writing pc \<longrightarrow> \<not> writer s \<and> readers s = 0"
    and g2: "reading pc' \<and> \<not> reading pc \<longrightarrow> \<not> writer s"
  shows "lock_inv s'"
proof -
  let ?cs = "callers s" and ?cs' = "callers s'"
  have len: "length ?cs' = length ?cs" by (simp add: cs)
  have nth_i: "snd (?cs' ! i) = pc'" using i by (simp add: cs)
  have nth_o: "?cs' ! j = ?cs ! j" if "j \<noteq> i" for j using that by (simp add: cs)
  from inv have r: "readers s = read_locks ?cs"
    and w: "writer s = (\<exists>j < length ?cs. writing (snd (?cs ! j)))"
    and u: "\<And>a b. a < length ?cs \<Longrightarrow> b < length ?cs \<Longrightarrow> writing (snd (?cs ! a))
              \<Longrightarrow> writing (snd (?cs ! b)) \<Longrightarrow> a = b"
    and x: "writer s \<Longrightarrow> readers s = 0"
    by (auto simp: lock_inv_def)
  from read_locks_update [OF i, of "(fst (?cs ! i), pc')"] pc
  have "read_locks ?cs' + (if reading pc then 1 else 0) = read_locks ?cs + (if reading pc' then 1 else 0)"
    by (simp add: cs)
  with rd r have c1: "readers s' = read_locks ?cs'" by simp
  have c2: "writer s' = (\<exists>j < length ?cs'. writing (snd (?cs' ! j)))"
  proof (cases "writing pc'")
    case True
    with wr i nth_i len show ?thesis by auto
  next
    case False
    have "(\<exists>j < length ?cs'. writing (snd (?cs' ! j)))
        = (\<exists>j < length ?cs. j \<noteq> i \<and> writing (snd (?cs ! j)))"
      using False nth_i nth_o len by (metis)
    also have "\<dots> = (if writing pc then False else writer s)"
    proof (cases "writing pc")
      case True
      then show ?thesis using u [OF _ i] pc by auto
    next
      case False
      then show ?thesis using w pc by auto
    qed
    finally show ?thesis using wr False by simp
  qed
  have c3: "a = b" if ab: "a < length ?cs'" "b < length ?cs'"
    "writing (snd (?cs' ! a))" "writing (snd (?cs' ! b))" for a b
  proof -
    have one: "False" if o: "c < length ?cs" "c \<noteq> i" "writing (snd (?cs ! c))" "writing pc'" for c
    proof (cases "writing pc")
      case True
      with u [OF o(1) i o(3)] pc o(2) show False by simp
    next
      case False
      with g1 o(4) have "\<not> writer s" by simp
      with w o(1,3) show False by auto
    qed
    show ?thesis
    proof (cases "a = i"; cases "b = i")
      assume "a = i" "b = i"
      then show ?thesis by simp
    next
      assume "a = i" "b \<noteq> i"
      with ab nth_i nth_o len one [of b] show ?thesis by auto
    next
      assume "a \<noteq> i" "b = i"
      with ab nth_i nth_o len one [of a] show ?thesis by auto
    next
      assume "a \<noteq> i" "b \<noteq> i"
      with ab nth_o len u [of a b] show ?thesis by auto
    qed
  qed
  have c4: "readers s' = 0" if ws': "writer s'"
  proof -
    have held: "readers s = 0"
    proof (cases "writing pc'")
      case True
      show ?thesis
      proof (cases "writing pc")
        case True
        with w i pc have "writer s" by auto
        then show ?thesis by (rule x)
      next
        case False
        with g1 True show ?thesis by simp
      qed
    next
      case False
      with wr ws' have "writer s" by (auto split: if_splits)
      then show ?thesis by (rule x)
    qed
    have np: "\<not> reading pc"
      using held r read_locks_zero [of ?cs i] i pc by auto
    have np': "\<not> reading pc'"
    proof
      assume rp: "reading pc'"
      with np g2 have nw: "\<not> writer s" by simp
      from rp have "\<not> writing pc'" by (rule reading_not_writing)
      with wr ws' nw show False by (auto split: if_splits)
    qed
    from rd np np' held show ?thesis by simp
  qed
  from c1 c2 c3 c4 show ?thesis
    unfolding lock_inv_def len by blast
qed

lemma lock_inv_step:
  assumes inv: "lock_inv s"
  shows "lock_inv (dial_step outcome i s)"
proof (cases "length (callers s) \<le> i")
  case True
  with inv show ?thesis by (simp add: dial_step_def)
next
  case False
  then have i: "i < length (callers s)" by simp
  note mv = lock_inv_move [OF inv i]
  have held: "writer s" if "writing (snd (callers s ! i))"
    using inv i that by (auto simp: lock_inv_def)
  show ?thesis
  proof (cases "snd (callers s ! i)")
    case AtRLock
    show ?thesis
    proof (cases "writer s")
      case True
      with inv i AtRLock show ?thesis by (simp add: dial_step_def)
    next
      case free: False
      have "lock_inv (set_pc i AtLookup (s\<lparr>readers := readers s + 1\<rparr>))"
        by (rule mv [OF AtRLock, of _ AtLookup]) (simp_all add: set_pc_def free)
      with i AtRLock free show ?thesis by (simp add: dial_step_def)
    qed
  next
    case AtLookup
    have "lock_inv (set_pc i (AtRUnlock (grpcConns (pool s) (fst (callers s ! i)))) s)"
        by (rule mv [OF AtLookup, of _ "AtRUnlock (grpcConns (pool s) (fst (callers s ! i)))"]) (simp_all add: set_pc_def)
    with i AtLookup show ?thesis by (simp add: dial_step_def)
  next
    case (AtRUnlock r)
    from inv i AtRUnlock have pos: "0 < readers s"
      using read_locks_pos [of i "callers s"] by (simp add: lock_inv_def)
    show ?thesis
    proof (cases r)
      case None
      have "lock_inv (set_pc i AtLock (s\<lparr>readers := readers s - 1\<rparr>))"
        by (rule mv [OF AtRUnlock, of _ AtLock]) (use pos in \<open>simp_all add: set_pc_def\<close>)
      with i AtRUnlock None show ?thesis by (simp add: dial_step_def)
    next
      case (Some cc)
      have "lock_inv (set_pc i (Returned (Inr (NewHubServicesClient cc))) (s\<lparr>readers := readers s - 1\<rparr>))"
        by (rule mv [OF AtRUnlock, of _ "Returned (Inr (NewHubServicesClient cc))"]) (use pos in \<open>simp_all add: set_pc_def\<close>)
      with i AtRUnlock Some show ?thesis by (simp add: dial_step_def)
    qed
  next
    case AtLock
    show ?thesis
    proof (cases "writer s \<or> readers s > 0")
      case True
      with inv i AtLock show ?thesis by (auto simp: dial_step_def)
    next
      case free: False
      have "lock_inv (set_pc i AtRecheck (s\<lparr>writer := True\<rparr>))"
        by (rule mv [OF AtLock, of _ AtRecheck]) (use free in \<open>simp_all add: set_pc_def\<close>)
      with i AtLock free show ?thesis by (simp add: dial_step_def)
    qed
  next
    case AtRecheck
    show ?thesis
    proof (cases "grpcConns (pool s) (fst (callers s ! i))")
      case None
      have "lock_inv (set_pc i AtGrpcDial s)"
        by (rule mv [OF AtRecheck, of _ AtGrpcDial]) (use held AtRecheck in \<open>simp_all add: set_pc_def\<close>)
      with i AtRecheck None show ?thesis by (simp add: dial_step_def)
    next
      case (Some cc)
      have "lock_inv (set_pc i (AtUnlock (Inr (NewHubServicesClient cc))) s)"
        by (rule mv [OF AtRecheck, of _ "AtUnlock (Inr (NewHubServicesClient cc))"]) (use held AtRecheck in \<open>simp_all add: set_pc_def\<close>)
      with i AtRecheck Some show ?thesis by (simp add: dial_step_def)
    qed
  next
    case AtGrpcDial
    show ?thesis
    proof (cases outcome)
      case (Inl err)
      have "lock_inv (set_pc i (AtUnlock (Inl err)) s)"
        by (rule mv [OF AtGrpcDial, of _ "AtUnlock (Inl err)"]) (use held AtGrpcDial in \<open>simp_all add: set_pc_def\<close>)
      with i AtGrpcDial Inl show ?thesis by (simp add: dial_step_def)
    next
      case (Inr cc)
      have "lock_inv (set_pc i (AtInsert cc) (s\<lparr>dialed := dialed s @ [(fst (callers s ! i), cc)]\<rparr>))"
        by (rule mv [OF AtGrpcDial, of _ "AtInsert cc"]) (use held AtGrpcDial in \<open>simp_all add: set_pc_def\<close>)
      with i AtGrpcDial Inr show ?thesis by (simp add: dial_step_def)
    qed
  next
    case (AtInsert cc)
    have "lock_inv (set_pc i (AtUnlock (Inr (NewHubServicesClient cc)))
             (s\<lparr>pool := (pool s)\<lparr>grpcConns := (grpcConns (pool s))(fst (callers s ! i) \<mapsto> cc)\<rparr>\<rparr>))"
        by (rule mv [OF AtInsert, of _ "AtUnlock (Inr (NewHubServicesClient cc))"]) (use held AtInsert in \<open>simp_all add: set_pc_def\<close>)
    with i AtInsert show ?thesis by (simp add: dial_step_def)
  next
    case (AtUnlock r)
    have "lock_inv (set_pc i (Returned r) (s\<lparr>writer := False\<rparr>))"
        by (rule mv [OF AtUnlock, of _ "Returned r"]) (simp_all add: set_pc_def)
    with i AtUnlock show ?thesis by (simp add: dial_step_def)
  next
    case (Returned r)
    with inv i show ?thesis by (simp add: dial_step_def)
  qed
qed

lemma lock_inv_start: "lock_inv (pool_start g targets)"
proof -
  have "read_locks (map (\<lambda>t. (t, AtRLock)) targets) = 0"
    by (induction targets) (simp_all add: read_locks_def)
  then show ?thesis by (simp add: lock_inv_def pool_start_def)
qed

lemma place_ok_frame:
  "pool s' = pool s \<Longrightarrow> dialed s' = dialed s \<Longrightarrow> place_ok s' t pc = place_ok s t pc"
  by (induction s t pc rule: place_ok.induct) (simp_all add: created_for_def)

lemma conn_inv_move:
  assumes inv: "conn_inv g s" and i: "i < length (callers s)" and pc: "snd (callers s ! i) = pc"
    and cs: "callers s' = (callers s)[i := (fst (callers s ! i), pc')]"
    and frame: "pool s' = pool s" "dialed s' = dialed s"
    and ok: "place_ok s (fst (callers s ! i)) pc'"
    and ins: "\<not> inserting pc" "\<not> inserting pc'"
  shows "conn_inv g s'"
proof -
  have cf: "created_for t s' = created_for t s" for t
    by (simp add: created_for_def frame)
  have nth: "callers s' ! j = (if j = i then (fst (callers s ! i), pc') else callers s ! j)"
    if "j < length (callers s)" for j
    using that by (simp add: cs nth_list_update)
  have len: "length (callers s') = length (callers s)" by (simp add: cs)
  have insq: "(fst (callers s' ! j) = t \<and> inserting (snd (callers s' ! j)))
      = (fst (callers s ! j) = t \<and> inserting (snd (callers s ! j)))" if "j < length (callers s)" for j t
    using that ins pc by (auto simp: nth)
  from inv have p: "\<And>j. j < length (callers s) \<Longrightarrow> place_ok s (fst (callers s ! j)) (snd (callers s ! j))"
    by (simp add: conn_inv_def)
  have "place_ok s' (fst (callers s' ! j)) (snd (callers s' ! j))" if "j < length (callers s)" for j
    using that p [OF that] ok by (simp add: nth place_ok_frame [OF frame])
  moreover from inv have "\<forall>t c. grpcConns g t = Some c \<longrightarrow> grpcConns (pool s') t = Some c \<and> created_for t s' = []"
    by (simp add: conn_inv_def cf frame)
  moreover from inv have "\<forall>t. grpcConns g t = None \<and> grpcConns (pool s') t = None
               \<and> (\<forall>j < length (callers s'). \<not> (fst (callers s' ! j) = t \<and> inserting (snd (callers s' ! j))))
             \<longrightarrow> created_for t s' = []"
    by (simp add: conn_inv_def cf frame len insq)
  moreover from inv have "\<forall>t c. grpcConns g t = None \<and> grpcConns (pool s') t = Some c \<longrightarrow> created_for t s' = [c]"
    by (simp add: conn_inv_def cf frame)
  ultimately show ?thesis by (simp add: conn_inv_def len)
qed

lemma place_ok_pool:
  "\<not> inserting pc \<Longrightarrow> pool s' = pool s \<Longrightarrow> place_ok s' t pc = place_ok s t pc"
  by (induction s t pc rule: place_ok.induct) simp_all

lemma inserting_writing: "inserting pc \<Longrightarrow> writing pc"
  by (cases pc) auto

lemma place_ok_miss:
  "place_ok s t pc \<Longrightarrow> grpcConns (pool s) t = None \<Longrightarrow> \<not> writing pc \<Longrightarrow>
     grpcConns (pool s') t = Some c \<Longrightarrow> dialed s' = dialed s \<Longrightarrow> place_ok s' t pc"
  by (induction s t pc rule: place_ok.induct) simp_all

lemma place_ok_other:
  "place_ok s t pc \<Longrightarrow> grpcConns (pool s') t = grpcConns (pool s) t \<Longrightarrow> dialed s' = dialed s \<Longrightarrow>
     place_ok s' t pc"
  by (induction s t pc rule: place_ok.induct) (simp_all add: created_for_def)

lemma conn_inv_dial:
  assumes inv: "conn_inv g s" and lk: "lock_inv s"
    and i: "i < length (callers s)" and pc: "snd (callers s ! i) = AtGrpcDial"
    and cs: "callers s' = (callers s)[i := (fst (callers s ! i), AtInsert c)]"
    and pl: "pool s' = pool s" and dl: "dialed s' = dialed s @ [(fst (callers s ! i), c)]"
  shows "conn_inv g s'"
proof -
  let ?ti = "fst (callers s ! i)"
  have len: "length (callers s') = length (callers s)" by (simp add: cs)
  have nth: "callers s' ! j = (if j = i then (?ti, AtInsert c) else callers s ! j)"
    if "j < length (callers s)" for j
    using that by (simp add: cs nth_list_update)
  from inv have p: "\<And>j. j < length (callers s) \<Longrightarrow> place_ok s (fst (callers s ! j)) (snd (callers s ! j))"
    and a: "\<And>t c. grpcConns g t = Some c \<Longrightarrow> grpcConns (pool s) t = Some c \<and> created_for t s = []"
    and b: "\<And>t. grpcConns g t = None \<Longrightarrow> grpcConns (pool s) t = None
               \<Longrightarrow> (\<forall>i < length (callers s). \<not> (fst (callers s ! i) = t \<and> inserting (snd (callers s ! i))))
               \<Longrightarrow> created_for t s = []"
    and d: "\<And>t c. grpcConns g t = None \<Longrightarrow> grpcConns (pool s) t = Some c \<Longrightarrow> created_for t s = [c]"
    by (auto simp: conn_inv_def)
  from lk have u: "\<And>a b. a < length (callers s) \<Longrightarrow> b < length (callers s)
      \<Longrightarrow> writing (snd (callers s ! a)) \<Longrightarrow> writing (snd (callers s ! b)) \<Longrightarrow> a = b"
    by (auto simp: lock_inv_def)
  have noins: "\<not> inserting (snd (callers s ! j))" if "j < length (callers s)" for j
  proof
    assume "inserting (snd (callers s ! j))"
    then have "writing (snd (callers s ! j))" by (rule inserting_writing)
    from u [OF that i this] pc have "j = i" by simp
    with \<open>inserting (snd (callers s ! j))\<close> pc show False by simp
  qed
  from p [OF i] pc have miss: "grpcConns (pool s) ?ti = None" by simp
  have g0: "grpcConns g ?ti = None"
  proof (cases "grpcConns g ?ti")
    case (Some c')
    from a [OF Some] miss show ?thesis by simp
  qed simp
  from b [OF g0 miss] noins have fresh: "created_for ?ti s = []" by blast
  have cf: "created_for t s' = created_for t s @ (if t = ?ti then [c] else [])" for t
    by (simp add: created_for_def dl)
  have "place_ok s' (fst (callers s' ! j)) (snd (callers s' ! j))" if j: "j < length (callers s)" for j
  proof (cases "j = i")
    case True
    with j miss fresh show ?thesis by (simp add: nth pl cf)
  next
    case False
    with j p [OF j] noins [OF j] show ?thesis by (simp add: nth place_ok_pool [OF _ pl])
  qed
  moreover have "grpcConns (pool s') t = Some c' \<and> created_for t s' = []" if "grpcConns g t = Some c'" for t c'
    using a [OF that] that g0 by (auto simp: pl cf)
  moreover have "created_for t s' = []"
    if "grpcConns g t = None" "grpcConns (pool s') t = None"
      "\<forall>j < length (callers s'). \<not> (fst (callers s' ! j) = t \<and> inserting (snd (callers s' ! j)))" for t
  proof -
    from that(3) i have "t \<noteq> ?ti" by (auto simp: len nth)
    moreover from b [OF that(1)] that(2) noins have "created_for t s = []" by (simp add: pl)
    ultimately show ?thesis by (simp add: cf)
  qed
  moreover have "created_for t s' = [c']" if "grpcConns g t = None" "grpcConns (pool s') t = Some c'" for t c'
  proof -
    from that(2) miss have "t \<noteq> ?ti" by (auto simp: pl)
    with d [OF that(1)] that(2) show ?thesis by (simp add: cf pl)
  qed
  ultimately show ?thesis by (simp add: conn_inv_def len)
qed

lemma conn_inv_insert:
  assumes inv: "conn_inv g s" and lk: "lock_inv s"
    and i: "i < length (callers s)" and pc: "snd (callers s ! i) = AtInsert c"
    and cs: "callers s' = (callers s)[i := (fst (callers s ! i), AtUnlock (Inr (NewHubServicesClient c)))]"
    and pl: "pool s' = (pool s)\<lparr>grpcConns := (grpcConns (pool s))(fst (callers s ! i) \<mapsto> c)\<rparr>"
    and dl: "dialed s' = dialed s"
  shows "conn_inv g s'"
proof -
  let ?ti = "fst (callers s ! i)"
  have len: "length (callers s') = length (callers s)" by (simp add: cs)
  have nth: "callers s' ! j = (if j = i then (?ti, AtUnlock (Inr (NewHubServicesClient c))) else callers s ! j)"
    if "j < length (callers s)" for j
    using that by (simp add: cs nth_list_update)
  from inv have p: "\<And>j. j < length (callers s) \<Longrightarrow> place_ok s (fst (callers s ! j)) (snd (callers s ! j))"
    and a: "\<And>t c. grpcConns g t = Some c \<Longrightarrow> grpcConns (pool s) t = Some c \<and> created_for t s = []"
    and b: "\<And>t. grpcConns g t = None \<Longrightarrow> grpcConns (pool s) t = None
               \<Longrightarrow> (\<forall>i < length (callers s). \<not> (fst (callers s ! i) = t \<and> inserting (snd (callers s ! i))))
               \<Longrightarrow> created_for t s = []"
    and d: "\<And>t c. grpcConns g t = None \<Longrightarrow> grpcConns (pool s) t = Some c \<Longrightarrow> created_for t s = [c]"
    by (auto simp: conn_inv_def)
  from lk have u: "\<And>a b. a < length (callers s) \<Longrightarrow> b < length (callers s)
      \<Longrightarrow> writing (snd (callers s ! a)) \<Longrightarrow> writing (snd (callers s ! b)) \<Longrightarrow> a = b"
    by (auto simp: lock_inv_def)
  have only: "\<not> writing (snd (callers s ! j))" if "j < length (callers s)" "j \<noteq> i" for j
    using u [OF that(1) i] pc that(2) by auto
  from p [OF i] pc have miss: "grpcConns (pool s) ?ti = None" and one: "created_for ?ti s = [c]"
    by simp_all
  have g0: "grpcConns g ?ti = None"
  proof (cases "grpcConns g ?ti")
    case (Some c')
    from a [OF Some] miss show ?thesis by simp
  qed simp
  have cf: "created_for t s' = created_for t s" for t
    by (simp add: created_for_def dl)
  have conns: "grpcConns (pool s') t = (if t = ?ti then Some c else grpcConns (pool s) t)" for t
    by (simp add: pl)
  have "place_ok s' (fst (callers s' ! j)) (snd (callers s' ! j))" if j: "j < length (callers s)" for j
  proof (cases "j = i")
    case True
    with j show ?thesis by (simp add: nth conns)
  next
    case False
    show ?thesis
    proof (cases "fst (callers s ! j) = ?ti")
      case True
      from place_ok_miss [OF p [OF j] _ only [OF j False] _ dl, of c] True miss
      have "place_ok s' (fst (callers s ! j)) (snd (callers s ! j))" by (simp add: conns)
      with j False show ?thesis by (simp add: nth)
    next
      case other: False
      from place_ok_other [OF p [OF j] _ dl] other
      have "place_ok s' (fst (callers s ! j)) (snd (callers s ! j))" by (simp add: conns)
      with j False show ?thesis by (simp add: nth)
    qed
  qed
  moreover have "grpcConns (pool s') t = Some c' \<and> created_for t s' = []" if "grpcConns g t = Some c'" for t c'
    using a [OF that] that g0 by (auto simp: conns cf)
  moreover have "created_for t s' = []"
    if "grpcConns g t = None" "grpcConns (pool s') t = None"
      "\<forall>j < length (callers s'). \<not> (fst (callers s' ! j) = t \<and> inserting (snd (callers s' ! j)))" for t
  proof -
    from that(2) have ne: "t \<noteq> ?ti" and m: "grpcConns (pool s) t = None"
      by (auto simp: conns split: if_splits)
    have "\<not> (fst (callers s ! j) = t \<and> inserting (snd (callers s ! j)))" if j: "j < length (callers s)" for j
    proof (cases "j = i")
      case True
      with ne show ?thesis by simp
    next
      case False
      with only [OF j False] inserting_writing show ?thesis by blast
    qed
    with b [OF that(1) m] show ?thesis by (simp add: cf)
  qed
  moreover have "created_for t s' = [c']" if "grpcConns g t = None" "grpcConns (pool s') t = Some c'" for t c'
  proof (cases "t = ?ti")
    case True
    with that(2) one show ?thesis by (simp add: conns cf)
  next
    case False
    with d [OF that(1)] that(2) show ?thesis by (simp add: conns cf)
  qed
  ultimately show ?thesis by (simp add: conn_inv_def len)
qed

lemma place_ok_returned: "place_ok s t (Returned r) = place_ok s t (AtUnlock r)"
proof (cases r)
  case (Inl e)
  then show ?thesis by simp
next
  case (Inr cl)
  then show ?thesis by (cases cl) simp
qed

lemma place_ok_lookup: "place_ok s t (AtRUnlock (grpcConns (pool s) t))"
  by (cases "grpcConns (pool s) t") simp_all

lemma conn_inv_step:
  assumes inv: "conn_inv g s" and lk: "lock_inv s"
  shows "conn_inv g (dial_step outcome i s)"
proof (cases "length (callers s) \<le> i")
  case True
  with inv show ?thesis by (simp add: dial_step_def)
next
  case False
  then have i: "i < length (callers s)" by simp
  note mv = conn_inv_move [OF inv i]
  from inv i have ok: "place_ok s (fst (callers s ! i)) (snd (callers s ! i))"
    by (simp add: conn_inv_def)
  show ?thesis
  proof (cases "snd (callers s ! i)")
    case AtRLock
    show ?thesis
    proof (cases "writer s")
      case True
      with inv i AtRLock show ?thesis by (simp add: dial_step_def)
    next
      case free: False
      have "conn_inv g (set_pc i AtLookup (s\<lparr>readers := readers s + 1\<rparr>))"
        by (rule mv [OF AtRLock, of _ AtLookup]) (simp_all add: set_pc_def)
      with i AtRLock free show ?thesis by (simp add: dial_step_def)
    qed
  next
    case AtLookup
    have "conn_inv g (set_pc i (AtRUnlock (grpcConns (pool s) (fst (callers s ! i)))) s)"
      by (rule mv [OF AtLookup, of _ "AtRUnlock (grpcConns (pool s) (fst (callers s ! i)))"])
         (simp_all add: set_pc_def place_ok_lookup)
    with i AtLookup show ?thesis by (simp add: dial_step_def)
  next
    case (AtRUnlock r)
    show ?thesis
    proof (cases r)
      case None
      have "conn_inv g (set_pc i AtLock (s\<lparr>readers := readers s - 1\<rparr>))"
        by (rule mv [OF AtRUnlock, of _ AtLock]) (simp_all add: set_pc_def)
      with i AtRUnlock None show ?thesis by (simp add: dial_step_def)
    next
      case (Some cc)
      have "conn_inv g (set_pc i (Returned (Inr (NewHubServicesClient cc))) (s\<lparr>readers := readers s - 1\<rparr>))"
        by (rule mv [OF AtRUnlock, of _ "Returned (Inr (NewHubServicesClient cc))"])
           (use ok AtRUnlock Some in \<open>simp_all add: set_pc_def\<close>)
      with i AtRUnlock Some show ?thesis by (simp add: dial_step_def)
    qed
  next
    case AtLock
    show ?thesis
    proof (cases "writer s \<or> readers s > 0")
      case True
      with inv i AtLock show ?thesis by (auto simp: dial_step_def)
    next
      case free: False
      have "conn_inv g (set_pc i AtRecheck (s\<lparr>writer := True\<rparr>))"
        by (rule mv [OF AtLock, of _ AtRecheck]) (simp_all add: set_pc_def)
      with i AtLock free show ?thesis by (simp add: dial_step_def)
    qed
  next
    case AtRecheck
    show ?thesis
    proof (cases "grpcConns (pool s) (fst (callers s ! i))")
      case None
      have "conn_inv g (set_pc i AtGrpcDial s)"
        by (rule mv [OF AtRecheck, of _ AtGrpcDial]) (use None in \<open>simp_all add: set_pc_def\<close>)
      with i AtRecheck None show ?thesis by (simp add: dial_step_def)
    next
      case (Some cc)
      have "conn_inv g (set_pc i (AtUnlock (Inr (NewHubServicesClient cc))) s)"
        by (rule mv [OF AtRecheck, of _ "AtUnlock (Inr (NewHubServicesClient cc))"])
           (use Some in \<open>simp_all add: set_pc_def\<close>)
      with i AtRecheck Some show ?thesis by (simp add: dial_step_def)
    qed
  next
    case AtGrpcDial
    show ?thesis
    proof (cases outcome)
      case (Inl err)
      have "conn_inv g (set_pc i (AtUnlock (Inl err)) s)"
        by (rule mv [OF AtGrpcDial, of _ "AtUnlock (Inl err)"]) (simp_all add: set_pc_def)
      with i AtGrpcDial Inl show ?thesis by (simp add: dial_step_def)
    next
      case (Inr cc)
      have "conn_inv g (set_pc i (AtInsert cc) (s\<lparr>dialed := dialed s @ [(fst (callers s ! i), cc)]\<rparr>))"
        by (rule conn_inv_dial [OF inv lk i AtGrpcDial]) (simp_all add: set_pc_def)
      with i AtGrpcDial Inr show ?thesis by (simp add: dial_step_def)
    qed
  next
    case (AtInsert cc)
    have "conn_inv g (set_pc i (AtUnlock (Inr (NewHubServicesClient cc)))
             (s\<lparr>pool := (pool s)\<lparr>grpcConns := (grpcConns (pool s))(fst (callers s ! i) \<mapsto> cc)\<rparr>\<rparr>))"
      by (rule conn_inv_insert [OF inv lk i AtInsert]) (simp_all add: set_pc_def)
    with i AtInsert show ?thesis by (simp add: dial_step_def)
  next
    case (AtUnlock r)
    have "conn_inv g (set_pc i (Returned r) (s\<lparr>writer := False\<rparr>))"
    proof (rule mv [OF AtUnlock, of _ "Returned r"])
      show "place_ok s (fst (callers s ! i)) (Returned r)"
        using ok AtUnlock by (simp add: place_ok_returned)
    qed (simp_all add: set_pc_def)
    with i AtUnlock show ?thesis by (simp add: dial_step_def)
  next
    case (Returned r)
    with inv i show ?thesis by (simp add: dial_step_def)
  qed
qed

lemma conn_inv_start: "conn_inv g (pool_start g targets)"
  by (auto simp: conn_inv_def pool_start_def created_for_def)

lemma invs_run: "lock_inv s \<Longrightarrow> conn_inv g s \<Longrightarrow> lock_inv (run sched s) \<and> conn_inv g (run sched s)"
proof (induction sched s rule: run.induct)
  case (1 s)
  then show ?case by simp
next
  case (2 i outcome sched s)
  then show ?case by (simp add: lock_inv_step conn_inv_step)
qed

lemma targets_step: "map fst (callers (dial_step outcome i s)) = map fst (callers s)"
proof (cases "length (callers s) \<le> i")
  case True
  then show ?thesis by (simp add: dial_step_def)
next
  case False
  then have i: "i < length (callers s)" by simp
  have upd: "map fst ((callers s)[i := (fst (callers s ! i), pc)]) = map fst (callers s)" for pc
    using i by (simp add: map_update list_update_same_conv)
  show ?thesis
    using i by (cases "snd (callers s ! i)")
      (auto simp: dial_step_def set_pc_def upd split: option.splits sum.splits)
qed

lemma targets_run: "map fst (callers (run sched s)) = map fst (callers s)"
  by (induction sched s rule: run.induct) (simp_all add: targets_step)

lemma sum_list_update_nat:
  fixes f :: "'a \<Rightarrow> nat"
  shows "i < length cs \<Longrightarrow> sum_list (map f (cs[i := x])) + f (cs ! i) = sum_list (map f cs) + f x"
proof (induction cs arbitrary: i)
  case Nil
  then show ?case by simp
next
  case (Cons c cs)
  show ?case
  proof (cases i)
    case 0
    then show ?thesis by simp
  next
    case (Suc k)
    with Cons.prems have "k < length cs" by simp
    from Cons.IH [OF this] Suc show ?thesis by simp
  qed
qed

lemma work_left_set_pc:
  assumes "i < length (callers s)" "steps_left pc' < steps_left (snd (callers s ! i))"
    "callers s' = (callers s)[i := (fst (callers s ! i), pc')]"
  shows "work_left s' < work_left s"
proof -
  from sum_list_update_nat [OF assms(1), of "\<lambda>x. steps_left (snd x)" "(fst (callers s ! i), pc')"]
  have "work_left s' + steps_left (snd (callers s ! i)) = work_left s + steps_left pc'"
    by (simp add: work_left_def assms(3))
  with assms(2) show ?thesis by simp
qed

lemma step_decreases:
  assumes "can_step s i"
  shows "work_left (dial_step outcome i s) < work_left s"
proof -
  from assms have i: "i < length (callers s)" by (simp add: can_step_def)
  note wl = work_left_set_pc [OF i]
  show ?thesis
  proof (cases "snd (callers s ! i)")
    case AtRLock
    with assms have free: "\<not> writer s" by (simp add: can_step_def)
    have "work_left (set_pc i AtLookup (s\<lparr>readers := readers s + 1\<rparr>)) < work_left s"
      by (rule wl [of AtLookup]) (simp_all add: AtRLock set_pc_def)
    with i AtRLock free show ?thesis by (simp add: dial_step_def)
  next
    case AtLookup
    have "work_left (set_pc i (AtRUnlock (grpcConns (pool s) (fst (callers s ! i)))) s) < work_left s"
      by (rule wl [of "AtRUnlock (grpcConns (pool s) (fst (callers s ! i)))"])
         (simp_all add: AtLookup set_pc_def)
    with i AtLookup show ?thesis by (simp add: dial_step_def)
  next
    case (AtRUnlock r)
    show ?thesis
    proof (cases r)
      case None
      have "work_left (set_pc i AtLock (s\<lparr>readers := readers s - 1\<rparr>)) < work_left s"
        by (rule wl [of AtLock]) (simp_all add: AtRUnlock set_pc_def)
      with i AtRUnlock None show ?thesis by (simp add: dial_step_def)
    next
      case (Some cc)
      have "work_left (set_pc i (Returned (Inr (NewHubServicesClient cc))) (s\<lparr>readers := readers s - 1\<rparr>))
          < work_left s"
        by (rule wl [of "Returned (Inr (NewHubServicesClient cc))"]) (simp_all add: AtRUnlock set_pc_def)
      with i AtRUnlock Some show ?thesis by (simp add: dial_step_def)
    qed
  next
    case AtLock
    with assms have free: "\<not> writer s" "readers s = 0" by (simp_all add: can_step_def)
    have "work_left (set_pc i AtRecheck (s\<lparr>writer := True\<rparr>)) < work_left s"
      by (rule wl [of AtRecheck]) (simp_all add: AtLock set_pc_def)
    with i AtLock free show ?thesis by (simp add: dial_step_def)
  next
    case AtRecheck
    show ?thesis
    proof (cases "grpcConns (pool s) (fst (callers s ! i))")
      case None
      have "work_left (set_pc i AtGrpcDial s) < work_left s"
        by (rule wl [of AtGrpcDial]) (simp_all add: AtRecheck set_pc_def)
      with i AtRecheck None show ?thesis by (simp add: dial_step_def)
    next
      case (Some cc)
      have "work_left (set_pc i (AtUnlock (Inr (NewHubServicesClient cc))) s) < work_left s"
        by (rule wl [of "AtUnlock (Inr (NewHubServicesClient cc))"]) (simp_all add: AtRecheck set_pc_def)
      with i AtRecheck Some show ?thesis by (simp add: dial_step_def)
    qed
  next
    case AtGrpcDial
    show ?thesis
    proof (cases outcome)
      case (Inl err)
      have "work_left (set_pc i (AtUnlock (Inl err)) s) < work_left s"
        by (rule wl [of "AtUnlock (Inl err)"]) (simp_all add: AtGrpcDial set_pc_def)
      with i AtGrpcDial Inl show ?thesis by (simp add: dial_step_def)
    next
      case (Inr cc)
      have "work_left (set_pc i (AtInsert cc) (s\<lparr>dialed := dialed s @ [(fst (callers s ! i), cc)]\<rparr>))
          < work_left s"
        by (rule wl [of "AtInsert cc"]) (simp_all add: AtGrpcDial set_pc_def)
      with i AtGrpcDial Inr show ?thesis by (simp add: dial_step_def)
    qed
  next
    case (AtInsert cc)
    have "work_left (set_pc i (AtUnlock (Inr (NewHubServicesClient cc)))
             (s\<lparr>pool := (pool s)\<lparr>grpcConns := (grpcConns (pool s))(fst (callers s ! i) \<mapsto> cc)\<rparr>\<rparr>))
        < work_left s"
      by (rule wl [of "AtUnlock (Inr (NewHubServicesClient cc))"]) (simp_all add: AtInsert set_pc_def)
    with i AtInsert show ?thesis by (simp add: dial_step_def)
  next
    case (AtUnlock r)
    have "work_left (set_pc i (Returned r) (s\<lparr>writer := False\<rparr>)) < work_left s"
      by (rule wl [of "Returned r"]) (simp_all add: AtUnlock set_pc_def)
    with i AtUnlock show ?thesis by (simp add: dial_step_def)
  next
    case (Returned r)
    with assms show ?thesis by (simp add: can_step_def)
  qed
qed

lemma some_can_step:
  assumes lk: "lock_inv s" and more: "\<not> all_returned s"
  shows "\<exists>i. can_step s i"
proof (cases "writer s")
  case True
  with lk obtain i where i: "i < length (callers s)" "writing (snd (callers s ! i))"
    by (auto simp: lock_inv_def)
  then have "can_step s i"
    by (cases "snd (callers s ! i)") (simp_all add: can_step_def)
  then show ?thesis ..
next
  case free: False
  show ?thesis
  proof (cases "readers s = 0")
    case False
    with lk have "0 < read_locks (callers s)" by (simp add: lock_inv_def)
    from read_locks_some [OF this] obtain i where i: "i < length (callers s)" "reading (snd (callers s ! i))"
      by blast
    then have "can_step s i"
      by (cases "snd (callers s ! i)") (simp_all add: can_step_def)
    then show ?thesis ..
  next
    case none: True
    from more obtain i where i: "i < length (callers s)" "\<not> returned (snd (callers s ! i))"
      by (auto simp: all_returned_def list_all_length)
    with free none have "can_step s i"
      by (cases "snd (callers s ! i)") (simp_all add: can_step_def)
    then show ?thesis ..
  qed
qed

lemma can_complete:
  "lock_inv s \<Longrightarrow> \<exists>steps. all_returned (run (map (\<lambda>i. (i, outcome)) steps) s)"
proof (induction "work_left s" arbitrary: s rule: less_induct)
  case less
  show ?case
  proof (cases "all_returned s")
    case True
    then show ?thesis by (intro exI [of _ "[]"]) simp
  next
    case False
    from some_can_step [OF less.prems False] obtain i where i: "can_step s i" ..
    from less.hyps [OF step_decreases [OF i] lock_inv_step [OF less.prems]]
    obtain steps where "all_returned (run (map (\<lambda>i. (i, outcome)) steps) (dial_step outcome i s))"
      by blast
    then show ?thesis by (intro exI [of _ "i # steps"]) simp
  qed
qed

lemma entry_stays_step:
  assumes inv: "conn_inv g s" and e: "grpcConns (pool s) t = Some c"
  shows "grpcConns (pool (dial_step outcome i s)) t = Some c"
proof (cases "length (callers s) \<le> i")
  case True
  with e show ?thesis by (simp add: dial_step_def)
next
  case False
  then have i: "i < length (callers s)" by simp
  from inv i have ok: "place_ok s (fst (callers s ! i)) (snd (callers s ! i))"
    by (simp add: conn_inv_def)
  show ?thesis
  proof (cases "snd (callers s ! i)")
    case (AtInsert cc)
    with ok have "grpcConns (pool s) (fst (callers s ! i)) = None" by simp
    with e have "fst (callers s ! i) \<noteq> t" by auto
    with i AtInsert e show ?thesis by (simp add: dial_step_def set_pc_def)
  next
    case (AtRUnlock r)
    with i e show ?thesis by (cases r) (simp_all add: dial_step_def set_pc_def)
  next
    case AtRecheck
    with i e show ?thesis
      by (cases "grpcConns (pool s) (fst (callers s ! i))") (simp_all add: dial_step_def set_pc_def)
  next
    case AtGrpcDial
    with i e show ?thesis by (cases outcome) (simp_all add: dial_step_def set_pc_def)
  qed (use i e in \<open>simp_all add: dial_step_def set_pc_def\<close>)
qed

lemma entry_stays_run:
  "lock_inv s \<Longrightarrow> conn_inv g s \<Longrightarrow> grpcConns (pool s) t = Some c \<Longrightarrow>
     grpcConns (pool (run sched s)) t = Some c"
proof (induction sched s rule: run.induct)
  case (1 s)
  then show ?case by simp
next
  case (2 i outcome sched s)
  from "2.IH" [OF lock_inv_step [OF "2.prems"(1)] conn_inv_step [OF "2.prems"(2,1)]
      entry_stays_step [OF "2.prems"(2,3)]]
  show ?case by simp
qed

lemma created_at_most_once:
  assumes lk: "lock_inv s" and inv: "conn_inv g s"
  shows "length (created_for t s) \<le> 1"
proof (cases "grpcConns g t")
  case (Some c)
  with inv show ?thesis by (simp add: conn_inv_def)
next
  case g0: None
  show ?thesis
  proof (cases "grpcConns (pool s) t")
    case (Some c)
    with inv g0 show ?thesis by (simp add: conn_inv_def)
  next
    case miss: None
    show ?thesis
    proof (cases "\<forall>i < length (callers s). \<not> (fst (callers s ! i) = t \<and> inserting (snd (callers s ! i)))")
      case True
      with inv g0 miss show ?thesis by (simp add: conn_inv_def)
    next
      case False
      then obtain i where i: "i < length (callers s)" "fst (callers s ! i) = t"
        "inserting (snd (callers s ! i))" by blast
      from i(3) obtain c where "snd (callers s ! i) = AtInsert c"
        by (cases "snd (callers s ! i)") simp_all
      moreover from inv i(1) have "place_ok s (fst (callers s ! i)) (snd (callers s ! i))"
        by (simp add: conn_inv_def)
      ultimately show ?thesis using i(2) by simp
    qed
  qed
qed

lemma errors_from_move:
  assumes org: "errors_from A s" and i: "i < length (callers s)"
    and cs: "callers s' = (callers s)[i := (fst (callers s ! i), pc')]"
    and new: "\<And>e. error_of pc' = Some e \<Longrightarrow> (i, Inl e) \<in> B" and sub: "A \<subseteq> B"
  shows "errors_from B s'"
  unfolding errors_from_def
proof (intro allI impI)
  fix j e
  assume "j < length (callers s')" and e: "error_of (snd (callers s' ! j)) = Some e"
  then have j: "j < length (callers s)" by (simp add: cs)
  show "(j, Inl e) \<in> B"
  proof (cases "j = i")
    case True
    with e i have "error_of pc' = Some e" by (simp add: cs)
    with new True show ?thesis by simp
  next
    case False
    with e have "error_of (snd (callers s ! j)) = Some e" by (simp add: cs)
    with org j sub show ?thesis by (auto simp: errors_from_def)
  qed
qed

lemma errors_from_step:
  assumes org: "errors_from A s"
  shows "errors_from (insert (i, outcome) A) (dial_step outcome i s)"
proof (cases "length (callers s) \<le> i")
  case True
  with org show ?thesis by (auto simp: dial_step_def errors_from_def)
next
  case False
  then have i: "i < length (callers s)" by simp
  note mv = errors_from_move [OF org i, where B = "insert (i, outcome) A"]
  have same: "errors_from (insert (i, outcome) A) s"
    using org by (auto simp: errors_from_def)
  show ?thesis
  proof (cases "snd (callers s ! i)")
    case AtRLock
    show ?thesis
    proof (cases "writer s")
      case True
      with same i AtRLock show ?thesis by (simp add: dial_step_def)
    next
      case free: False
      have "errors_from (insert (i, outcome) A) (set_pc i AtLookup (s\<lparr>readers := readers s + 1\<rparr>))"
        by (rule mv [where pc' = AtLookup]) (auto simp: set_pc_def)
      with i AtRLock free show ?thesis by (simp add: dial_step_def)
    qed
  next
    case AtLookup
    have "errors_from (insert (i, outcome) A)
            (set_pc i (AtRUnlock (grpcConns (pool s) (fst (callers s ! i)))) s)"
      by (rule mv [where pc' = "AtRUnlock (grpcConns (pool s) (fst (callers s ! i)))"])
         (auto simp: set_pc_def)
    with i AtLookup show ?thesis by (simp add: dial_step_def)
  next
    case (AtRUnlock r)
    show ?thesis
    proof (cases r)
      case None
      have "errors_from (insert (i, outcome) A) (set_pc i AtLock (s\<lparr>readers := readers s - 1\<rparr>))"
        by (rule mv [where pc' = AtLock]) (auto simp: set_pc_def)
      with i AtRUnlock None show ?thesis by (simp add: dial_step_def)
    next
      case (Some cc)
      have "errors_from (insert (i, outcome) A)
              (set_pc i (Returned (Inr (NewHubServicesClient cc))) (s\<lparr>readers := readers s - 1\<rparr>))"
        by (rule mv [where pc' = "Returned (Inr (NewHubServicesClient cc))"]) (auto simp: set_pc_def)
      with i AtRUnlock Some show ?thesis by (simp add: dial_step_def)
    qed
  next
    case AtLock
    show ?thesis
    proof (cases "writer s \<or> readers s > 0")
      case True
      with same i AtLock show ?thesis by (auto simp: dial_step_def)
    next
      case free: False
      have "errors_from (insert (i, outcome) A) (set_pc i AtRecheck (s\<lparr>writer := True\<rparr>))"
        by (rule mv [where pc' = AtRecheck]) (auto simp: set_pc_def)
      with i AtLock free show ?thesis by (simp add: dial_step_def)
    qed
  next
    case AtRecheck
    show ?thesis
    proof (cases "grpcConns (pool s) (fst (callers s ! i))")
      case None
      have "errors_from (insert (i, outcome) A) (set_pc i AtGrpcDial s)"
        by (rule mv [where pc' = AtGrpcDial]) (auto simp: set_pc_def)
      with i AtRecheck None show ?thesis by (simp add: dial_step_def)
    next
      case (Some cc)
      have "errors_from (insert (i, outcome) A) (set_pc i (AtUnlock (Inr (NewHubServicesClient cc))) s)"
        by (rule mv [where pc' = "AtUnlock (Inr (NewHubServicesClient cc))"]) (auto simp: set_pc_def)
      with i AtRecheck Some show ?thesis by (simp add: dial_step_def)
    qed
  next
    case AtGrpcDial
    show ?thesis
    proof (cases outcome)
      case (Inl err)
      have "errors_from (insert (i, outcome) A) (set_pc i (AtUnlock (Inl err)) s)"
        by (rule mv [where pc' = "AtUnlock (Inl err)"]) (auto simp: set_pc_def Inl)
      with i AtGrpcDial Inl show ?thesis by (simp add: dial_step_def)
    next
      case (Inr cc)
      have "errors_from (insert (i, outcome) A)
              (set_pc i (AtInsert cc) (s\<lparr>dialed := dialed s @ [(fst (callers s ! i), cc)]\<rparr>))"
        by (rule mv [where pc' = "AtInsert cc"]) (auto simp: set_pc_def)
      with i AtGrpcDial Inr show ?thesis by (simp add: dial_step_def)
    qed
  next
    case (AtInsert cc)
    have "errors_from (insert (i, outcome) A)
            (set_pc i (AtUnlock (Inr (NewHubServicesClient cc)))
               (s\<lparr>pool := (pool s)\<lparr>grpcConns := (grpcConns (pool s))(fst (callers s ! i) \<mapsto> cc)\<rparr>\<rparr>))"
      by (rule mv [where pc' = "AtUnlock (Inr (NewHubServicesClient cc))"]) (auto simp: set_pc_def)
    with i AtInsert show ?thesis by (simp add: dial_step_def)
  next
    case (AtUnlock r)
    from org i AtUnlock have mine: "\<And>e. error_of (Returned r) = Some e \<Longrightarrow> (i, Inl e) \<in> A"
      by (cases r) (auto simp: errors_from_def)
    have "errors_from (insert (i, outcome) A) (set_pc i (Returned r) (s\<lparr>writer := False\<rparr>))"
      by (rule mv [where pc' = "Returned r"]) (use mine in \<open>auto simp: set_pc_def\<close>)
    with i AtUnlock show ?thesis by (simp add: dial_step_def)
  next
    case (Returned r)
    with same i show ?thesis by (simp add: dial_step_def)
  qed
qed

lemma errors_from_run: "errors_from A s \<Longrightarrow> errors_from (A \<union> set sched) (run sched s)"
proof (induction sched s arbitrary: A rule: run.induct)
  case (1 s)
  then show ?case by simp
next
  case (2 i outcome sched s)
  from "2.IH" [OF errors_from_step [OF "2.prems"]]
  show ?case by simp
qed

lemma errors_from_start: "errors_from {} (pool_start g targets)"
  by (simp add: errors_from_def pool_start_def)

lemma run_append: "run (a @ b) s = run b (run a s)"
  by (induction a s rule: run.induct) simp_all

lemma all_served:
  assumes inv: "conn_inv g s" and fin: "all_returned s"
    and nf: "\<forall>j < length (callers s). error_of (snd (callers s ! j)) = None"
    and i: "i < length (callers s)"
  shows "\<exists>c. snd (callers s ! i) = Returned (Inr (NewHubServicesClient c))
           \<and> grpcConns (pool s) (fst (callers s ! i)) = Some c"
proof -
  from fin i have "returned (snd (callers s ! i))"
    by (simp add: all_returned_def list_all_length)
  then obtain r where r: "snd (callers s ! i) = Returned r"
    by (cases "snd (callers s ! i)") simp_all
  from nf i r obtain cl where "r = Inr cl" by (cases r) auto
  then obtain c where c: "r = Inr (NewHubServicesClient c)" by (cases cl) simp
  from inv i have "place_ok s (fst (callers s ! i)) (snd (callers s ! i))"
    by (simp add: conn_inv_def)
  with r c show ?thesis by simp
qed

text \<open>A single caller, run to its end, does what the sequential \<^verbatim>\<open>Dial\<close> does.\<close>

lemma single_caller_agrees:
  "callers (run (replicate 8 (0, outcome)) (pool_start g [target]))
     = [(target, Returned (fst (Dial (\<lambda>t opts w. (outcome, w)) g target ())))]
   \<and> pool (run (replicate 8 (0, outcome)) (pool_start g [target]))
     = fst (snd (Dial (\<lambda>t opts w. (outcome, w)) g target ()))"
  by (cases "grpcConns g target"; cases outcome)
     (simp_all add: eval_nat_numeral pool_start_def dial_step_def set_pc_def Dial_def)

lemma demo_schedule_run:
  "run demo_schedule (pool_start demo_pool [''hub1:443'', ''hub1:443''])
     = \<lparr>pool = demo_pool\<lparr>grpcConns := [''hub1:443'' \<mapsto> 101]\<rparr>, readers = 0, writer = False,
        callers = [(''hub1:443'', Returned (Inr (NewHubServicesClient 101))),
                   (''hub1:443'', Returned (Inr (NewHubServicesClient 101)))],
        dialed = [(''hub1:443'', 101)]\<rparr>"
  by (simp add: demo_schedule_def pool_start_def dial_step_def set_pc_def demo_pool_def)

text \<open>
  Claim C8, as amended. For every set of concurrent \<^verbatim>\<open>Dial\<close> calls on a pool and every
  interleaving of their steps, with any results of \<^verbatim>\<open>grpc.Dial\<close>: for every target at
  most one connection is created, and none for a target cached from the start
  (double-checked locking: the lookup under the read lock, the re-check under the write
  lock before dialing); every caller that has returned a client holds the connection
  cached for its target, which for a first-time target is the one connection created; an
  entry of the cache, once there, is never replaced; while a caller holds the write lock
  no other caller holds a lock; an error a caller returns is the error of a \<^verbatim>\<open>grpc.Dial\<close>
  call that caller made itself; from every reachable state the callers can all run to
  their return; and when no \<^verbatim>\<open>grpc.Dial\<close> call fails they all return a client over the
  connection cached for their target.
\<close>

theorem concurrent_dial_one_connection:
  assumes s: "s = run sched (pool_start g targets)"
  shows "map fst (callers s) = targets
     \<and> (\<forall>t. length (created_for t s) \<le> 1)
     \<and> (\<forall>t c. grpcConns g t = Some c \<longrightarrow> created_for t s = [])
     \<and> (\<forall>i < length targets. \<forall>c. snd (callers s ! i) = Returned (Inr (NewHubServicesClient c))
           \<longrightarrow> grpcConns (pool s) (targets ! i) = Some c
              \<and> (grpcConns g (targets ! i) = None \<longrightarrow> created_for (targets ! i) s = [c]))
     \<and> (\<forall>t c sched'. grpcConns (pool s) t = Some c \<longrightarrow> grpcConns (pool (run sched' s)) t = Some c)
     \<and> (\<forall>i < length targets. \<forall>j < length targets. writing (snd (callers s ! i))
           \<longrightarrow> \<not> reading (snd (callers s ! j)) \<and> (writing (snd (callers s ! j)) \<longrightarrow> j = i))
     \<and> (\<forall>i < length targets. \<forall>e. snd (callers s ! i) = Returned (Inl e) \<longrightarrow> (i, Inl e) \<in> set sched)
     \<and> (\<forall>outcome. \<exists>steps. all_returned (run (map (\<lambda>i. (i, outcome)) steps) s))
     \<and> ((\<forall>x \<in> set sched. \<exists>c. snd x = Inr c)
           \<longrightarrow> (\<forall>c0. \<exists>steps. \<forall>i < length targets. \<exists>c.
                  callers (run (map (\<lambda>i. (i, Inr c0)) steps) s) ! i
                    = (targets ! i, Returned (Inr (NewHubServicesClient c)))
                  \<and> grpcConns (pool (run (map (\<lambda>i. (i, Inr c0)) steps) s)) (targets ! i) = Some c))"
proof -
  have "lock_inv (run sched (pool_start g targets)) \<and> conn_inv g (run sched (pool_start g targets))"
    by (rule invs_run [OF lock_inv_start conn_inv_start])
  then have lk: "lock_inv s" and inv: "conn_inv g s" by (simp_all add: s)
  have tg: "map fst (callers s) = targets"
    by (simp add: s targets_run pool_start_def comp_def)
  then have len: "length (callers s) = length targets" by (metis length_map)
  have fst_nth: "fst (callers s ! i) = targets ! i" if "i < length targets" for i
    using that tg len by (metis nth_map)
  have ret: "grpcConns (pool s) (targets ! i) = Some c
      \<and> (grpcConns g (targets ! i) = None \<longrightarrow> created_for (targets ! i) s = [c])"
    if i: "i < length targets" and r: "snd (callers s ! i) = Returned (Inr (NewHubServicesClient c))" for i c
  proof -
    from inv i len have "place_ok s (fst (callers s ! i)) (snd (callers s ! i))"
      by (simp add: conn_inv_def)
    with r fst_nth [OF i] have "grpcConns (pool s) (targets ! i) = Some c" by simp
    with inv show ?thesis by (simp add: conn_inv_def)
  qed
  have excl: "\<not> reading (snd (callers s ! j)) \<and> (writing (snd (callers s ! j)) \<longrightarrow> j = i)"
    if i: "i < length targets" and j: "j < length targets" and w: "writing (snd (callers s ! i))" for i j
  proof -
    from lk i w len have "writer s" by (auto simp: lock_inv_def)
    with lk have "read_locks (callers s) = 0" by (simp add: lock_inv_def)
    from read_locks_zero [OF this] j len have "\<not> reading (snd (callers s ! j))" by simp
    moreover from lk i j w len have "writing (snd (callers s ! j)) \<longrightarrow> j = i"
      by (auto simp: lock_inv_def)
    ultimately show ?thesis ..
  qed
  have origin: "(i, Inl e) \<in> set sched"
    if i: "i < length targets" and r: "snd (callers s ! i) = Returned (Inl e)" for i e
  proof -
    have "errors_from ({} \<union> set sched) (run sched (pool_start g targets))"
      by (rule errors_from_run [OF errors_from_start])
    then have "errors_from (set sched) s" by (simp add: s)
    with i len r show ?thesis by (simp add: errors_from_def)
  qed
  have served: "\<exists>steps. \<forall>i < length targets. \<exists>c.
                  callers (run (map (\<lambda>i. (i, Inr c0)) steps) s) ! i
                    = (targets ! i, Returned (Inr (NewHubServicesClient c)))
                  \<and> grpcConns (pool (run (map (\<lambda>i. (i, Inr c0)) steps) s)) (targets ! i) = Some c"
    if ok: "\<forall>x \<in> set sched. \<exists>c. snd x = Inr c" for c0
  proof -
    from can_complete [OF lk, of "Inr c0"] obtain steps where
      fin: "all_returned (run (map (\<lambda>i. (i, Inr c0)) steps) s)" by blast
    let ?more = "map (\<lambda>i. (i, Inr c0)) steps"
    let ?s = "run ?more s"
    have s': "?s = run (sched @ ?more) (pool_start g targets)" by (simp add: s run_append)
    have inv': "conn_inv g ?s" using invs_run [OF lk inv] by simp
    have ok': "\<forall>x \<in> set (sched @ ?more). \<exists>c. snd x = Inr c" using ok by auto
    have "errors_from ({} \<union> set (sched @ ?more)) (run (sched @ ?more) (pool_start g targets))"
      by (rule errors_from_run [OF errors_from_start])
    then have "errors_from (set (sched @ ?more)) ?s" by (simp only: s' Un_empty_left)
    then have org': "errors_from (set (sched @ ?more)) ?s" .
    have nf': "\<forall>j < length (callers ?s). error_of (snd (callers ?s ! j)) = None"
    proof (intro allI impI)
      fix j
      assume j: "j < length (callers ?s)"
      show "error_of (snd (callers ?s ! j)) = None"
      proof (cases "error_of (snd (callers ?s ! j))")
        case None
        then show ?thesis .
      next
        case (Some e)
        with org' j have "(j, Inl e) \<in> set (sched @ ?more)" by (simp add: errors_from_def)
        with ok' obtain c where "snd (j, Inl e :: error + client_conn) = Inr c" by blast
        then show ?thesis by simp
      qed
    qed
    have tg': "map fst (callers ?s) = targets" by (simp add: targets_run tg)
    then have len': "length (callers ?s) = length targets" by (metis length_map)
    have "\<exists>c. callers ?s ! i = (targets ! i, Returned (Inr (NewHubServicesClient c)))
                  \<and> grpcConns (pool ?s) (targets ! i) = Some c" if i: "i < length targets" for i
    proof -
      from i len' have i': "i < length (callers ?s)" by simp
      from tg' i' have f: "fst (callers ?s ! i) = targets ! i" by (metis nth_map)
      from all_served [OF inv' fin nf' i'] obtain c where
        "snd (callers ?s ! i) = Returned (Inr (NewHubServicesClient c))"
        "grpcConns (pool ?s) (fst (callers ?s ! i)) = Some c" by blast
      with f show ?thesis by (intro exI [of _ c]) (simp add: prod_eq_iff)
    qed
    then show ?thesis by blast
  qed
  show ?thesis
  proof (intro conjI)
    show "map fst (callers s) = targets" by (rule tg)
    show "\<forall>t. length (created_for t s) \<le> 1"
      by (rule allI) (rule created_at_most_once [OF lk inv])
    show "\<forall>t c. grpcConns g t = Some c \<longrightarrow> created_for t s = []"
      using inv by (simp add: conn_inv_def)
    show "\<forall>i < length targets. \<forall>c. snd (callers s ! i) = Returned (Inr (NewHubServicesClient c))
           \<longrightarrow> grpcConns (pool s) (targets ! i) = Some c
              \<and> (grpcConns g (targets ! i) = None \<longrightarrow> created_for (targets ! i) s = [c])"
      by (intro allI impI) (rule ret)
    show "\<forall>t c sched'. grpcConns (pool s) t = Some c \<longrightarrow> grpcConns (pool (run sched' s)) t = Some c"
      by (intro allI impI) (rule entry_stays_run [OF lk inv])
    show "\<forall>i < length targets. \<forall>j < length targets. writing (snd (callers s ! i))
           \<longrightarrow> \<not> reading (snd (callers s ! j)) \<and> (writing (snd (callers s ! j)) \<longrightarrow> j = i)"
      by (intro allI impI) (rule excl)
    show "\<forall>i < length targets. \<forall>e. snd (callers s ! i) = Returned (Inl e) \<longrightarrow> (i, Inl e) \<in> set sched"
      by (intro allI impI) (rule origin)
    show "\<forall>outcome. \<exists>steps. all_returned (run (map (\<lambda>i. (i, outcome)) steps) s)"
      by (rule allI) (rule can_complete [OF lk])
    show "(\<forall>x \<in> set sched. \<exists>c. snd x = Inr c)
           \<longrightarrow> (\<forall>c0. \<exists>steps. \<forall>i < length targets. \<exists>c.
                  callers (run (map (\<lambda>i. (i, Inr c0)) steps) s) ! i
                    = (targets ! i, Returned (Inr (NewHubServicesClient c)))
                  \<and> grpcConns (pool (run (map (\<lambda>i. (i, Inr c0)) steps) s)) (targets ! i) = Some c)"
      by (intro allI impI) (rule served)
  qed
qed

text \<open>
  The claim as first stated has every caller receive a client over the one connection
  created. When the \<^verbatim>\<open>grpc.Dial\<close> of caller 0 fails, caller 0 returns that error and
  caller 1 dials again; when every \<^verbatim>\<open>grpc.Dial\<close> fails no connection is created and no
  caller receives a client.
\<close>

theorem dial_failure_counterexample:
  "run failing_schedule (pool_start demo_pool [''hub1:443'', ''hub1:443''])
     = \<lparr>pool = demo_pool\<lparr>grpcConns := [''hub1:443'' \<mapsto> 101]\<rparr>, readers = 0, writer = False,
        callers = [(''hub1:443'', Returned (Inl (ErrOther ''no route''))),
                   (''hub1:443'', Returned (Inr (NewHubServicesClient 101)))],
        dialed = [(''hub1:443'', 101)]\<rparr>
   \<and> run refused_schedule (pool_start demo_pool [''hub1:443'', ''hub1:443''])
     = \<lparr>pool = demo_pool, readers = 0, writer = False,
        callers = [(''hub1:443'', Returned (Inl (ErrOther ''no route''))),
                   (''hub1:443'', Returned (Inl (ErrOther ''no route'')))],
        dialed = []\<rparr>"
  by (simp add: failing_schedule_def refused_schedule_def pool_start_def dial_step_def set_pc_def
        demo_pool_def)

theorem concurrent_dial_one_connection_witness:
  "map snd (callers (run demo_schedule (pool_start demo_pool [''hub1:443'', ''hub1:443''])))
     = [Returned (Inr (NewHubServicesClient 101)), Returned (Inr (NewHubServicesClient 101))]
   \<and> created_for ''hub1:443'' (run demo_schedule (pool_start demo_pool [''hub1:443'', ''hub1:443''])) = [101]
   \<and> grpcConns (pool (run demo_schedule (pool_start demo_pool [''hub1:443'', ''hub1:443'']))) ''hub1:443''
       = Some 101"
  using concurrent_dial_one_connection [OF refl, of demo_schedule demo_pool "[''hub1:443'', ''hub1:443'']"]
  by (simp add: demo_schedule_run created_for_def)

end
